theory Spec2Isabelle
  imports Complex_Main "HOL-Library.Word"
begin

unbundle bit_operations_syntax

section \<open>Preliminaries\<close>

text \<open>
  Bytes are 8-bit words.  A primitive either pushes a result (\<open>Ok\<close>), fails through
  \<open>lisp_err\<close> with a message (\<open>Error\<close>: the nonlocal escape to the innermost
  \<open>catch\<close>), or leaves the defined behaviour of C (\<open>Abort\<close>: a failed \<open>assert\<close>,
  an out-of-bounds access or a loop that cannot end).
\<close>

type_synonym byte = "8 word"

datatype 'a res = Ok 'a | Error string | Abort

section \<open>UTF-8 validation and the \<open>substring\<close> primitive\<close>

text \<open>
  \<open>check_utf8\<close> (lisp.c): the position of the first encoding error, or \<open>-1\<close>.
  The loop over \<open>i\<close> is a recursion over the remaining bytes, carrying \<open>remain\<close>
  and the position.
\<close>

fun check_utf8_from :: "nat \<Rightarrow> nat \<Rightarrow> byte list \<Rightarrow> int" where
  "check_utf8_from remain i [] = (if remain = 0 then - 1 else int i)"
| "check_utf8_from remain i (c # cs) =
     (if remain > 0 then
        (if c AND NOT 0x3f \<noteq> 0x80 then int i
         else check_utf8_from (remain - 1) (i + 1) cs)
      else if drop_bit 7 c = 0 then check_utf8_from remain (i + 1) cs
      else if drop_bit 6 c = 2 then int i
      else if drop_bit 5 c = 6 then check_utf8_from 1 (i + 1) cs
      else if drop_bit 4 c = 0xe then check_utf8_from 2 (i + 1) cs
      else if drop_bit 3 c = 0x1e then check_utf8_from 3 (i + 1) cs
      else int i)"

definition check_utf8 :: "byte list \<Rightarrow> int" where
  "check_utf8 s = check_utf8_from 0 0 s"

text \<open>
  A \<open>Lisp_String\<close> of length \<open>n\<close> owns \<open>n + 1\<close> bytes, the last one the
  terminating NUL (\<open>lisp_string_new\<close> sets \<open>t[length] = 0\<close>); \<open>byte_at\<close> reads
  \<open>s->buf[i]\<close> including that terminator.
\<close>

definition byte_at :: "byte list \<Rightarrow> nat \<Rightarrow> byte" where
  "byte_at s i = (if i < length s then s ! i else 0)"

definition is_cont :: "byte \<Rightarrow> bool" where
  "is_cont c = (c AND 0xc0 = 0x80)"

text \<open>
  The loop \<open>while ((s->buf[end] & 0xc0) == 0x80) end++\<close> of \<open>S_SUBSTRING\<close>.
\<close>

function advance_end :: "byte list \<Rightarrow> nat \<Rightarrow> nat" where
  "advance_end s e = (if e < length s \<and> is_cont (byte_at s e) then advance_end s (e + 1) else e)"
  by pat_completeness auto
termination
  by (relation "measure (\<lambda>(s, e). length s - e)") auto

declare advance_end.simps [simp del]

text \<open>
  \<open>lisp_string_new(vm, buf, length)\<close> copies with \<open>strncpy\<close>: bytes up to the first
  NUL, then NUL padding up to \<open>length\<close>.
\<close>

definition strncpy :: "byte list \<Rightarrow> nat \<Rightarrow> byte list" where
  "strncpy src n = (let t = takeWhile (\<lambda>c. c \<noteq> 0) (take n src)
                    in t @ replicate (n - length t) 0)"

definition lisp_string_new :: "byte list \<Rightarrow> nat \<Rightarrow> byte list" where
  "lisp_string_new buf len = strncpy buf len"

text \<open>
  The case \<open>S_SUBSTRING\<close> of \<open>apply_primitive\<close>, after \<open>safe_ptr\<close> and
  \<open>safe_int\<close> have decoded the arguments: the string bytes, \<open>start\<close>, and the
  optional \<open>end\<close> (default: the length).  When \<open>start\<close> lies beyond the clipped and
  advanced end, \<open>end - start\<close> is negative and the copy length wraps around as a
  \<open>size_t\<close>: that is \<open>Abort\<close>.
\<close>

definition supplied_end :: "byte list \<Rightarrow> int option \<Rightarrow> int" where
  "supplied_end s end_arg = (case end_arg of None \<Rightarrow> int (length s) | Some e \<Rightarrow> e)"

definition clip_end :: "byte list \<Rightarrow> int \<Rightarrow> nat" where
  "clip_end s e = (if nat e > length s then length s else nat e)"

definition S_SUBSTRING :: "byte list \<Rightarrow> int \<Rightarrow> int option \<Rightarrow> byte list res" where
  "S_SUBSTRING s start end_arg =
     (let end0 = supplied_end s end_arg in
      if 0 \<le> start \<and> start \<le> end0 then
        (let end2 = advance_end s (clip_end s end0)
         in if nat start < length s \<and> is_cont (byte_at s (nat start))
            then Error ''bad first byte''
            else if int end2 - start < 0 then Abort
            else Ok (lisp_string_new (drop (nat start) s) (end2 - nat start)))
      else Error ''bad range'')"

text \<open>
  A position is a character boundary when the byte there (the terminator at the end) is
  not a continuation byte \<open>10xxxxxx\<close>.
\<close>

definition char_boundary :: "byte list \<Rightarrow> nat \<Rightarrow> bool" where
  "char_boundary s p \<longleftrightarrow> p \<le> length s \<and> \<not> is_cont (byte_at s p)"

subsection \<open>The validator as a state machine\<close>

fun utf8_step :: "nat \<Rightarrow> byte \<Rightarrow> nat option" where
  "utf8_step remain c =
     (if remain > 0 then (if c AND NOT 0x3f \<noteq> 0x80 then None else Some (remain - 1))
      else if drop_bit 7 c = 0 then Some 0
      else if drop_bit 6 c = 2 then None
      else if drop_bit 5 c = 6 then Some 1
      else if drop_bit 4 c = 0xe then Some 2
      else if drop_bit 3 c = 0x1e then Some 3
      else None)"

fun utf8_scan :: "nat \<Rightarrow> byte list \<Rightarrow> nat option" where
  "utf8_scan r [] = Some r"
| "utf8_scan r (c # cs) = (case utf8_step r c of None \<Rightarrow> None | Some r' \<Rightarrow> utf8_scan r' cs)"

lemma check_utf8_from_scan:
  "check_utf8_from r i s = - 1 \<longleftrightarrow> utf8_scan r s = Some 0"
  by (induction s arbitrary: r i) auto

declare utf8_step.simps [simp del]

lemma check_utf8_scan: "check_utf8 s = - 1 \<longleftrightarrow> utf8_scan 0 s = Some 0"
  by (simp add: check_utf8_def check_utf8_from_scan)

lemma utf8_scan_append:
  "utf8_scan r (xs @ ys) = (case utf8_scan r xs of None \<Rightarrow> None | Some r' \<Rightarrow> utf8_scan r' ys)"
  by (induction xs arbitrary: r) (auto split: option.splits)

lemma all_lt8: "(\<forall>n<8. P n) = (P 0 \<and> P 1 \<and> P 2 \<and> P 3 \<and> P 4 \<and> P 5 \<and> P 6 \<and> P (7::nat))"
proof -
  have "{..<8::nat} = {0,1,2,3,4,5,6,7}" by auto
  then have "(\<forall>n<8. P n) = (\<forall>n\<in>{0,1,2,3,4,5,6,7::nat}. P n)"
    by (metis lessThan_iff)
  then show ?thesis by simp
qed

lemma byte_high_bits: "n \<ge> 8 \<Longrightarrow> \<not> bit (c::byte) n"
  by (auto dest: bit_imp_le_length)

lemma is_cont_bits: "is_cont c \<longleftrightarrow> bit c 7 \<and> \<not> bit c 6"
  unfolding is_cont_def
  by (auto simp add: bit_eq_iff [where ?'a = byte] bit_simps all_lt8)

lemma drop6_bits: "drop_bit 6 c = (2::byte) \<longleftrightarrow> bit c 7 \<and> \<not> bit c 6"
  by (auto simp add: bit_eq_iff [where ?'a = byte] bit_simps all_lt8 byte_high_bits)

lemma drop7_bits: "drop_bit 7 c = (0::byte) \<longleftrightarrow> \<not> bit c 7"
  by (auto simp add: bit_eq_iff [where ?'a = byte] bit_simps all_lt8 byte_high_bits)

lemma not_3f: "(NOT 0x3f :: byte) = 0xc0"
  by simp

lemma cont_mask_iff: "c AND NOT 0x3f = 0x80 \<longleftrightarrow> is_cont (c::byte)"
  by (simp only: is_cont_def not_3f)

lemma utf8_step_cont:
  "utf8_step r c = Some r' \<Longrightarrow> (is_cont c \<longleftrightarrow> r > 0)"
  unfolding utf8_step.simps cont_mask_iff
  by (auto simp: drop6_bits drop7_bits is_cont_bits split: if_splits)

lemma not_cont_zero: "\<not> is_cont 0"
  by (simp add: is_cont_def)

lemma utf8_scan_take:
  assumes "utf8_scan r s = Some r'"
  shows "\<exists>q. utf8_scan r (take p s) = Some q \<and> utf8_scan q (drop p s) = Some r'"
proof -
  have "utf8_scan r (take p s @ drop p s) = Some r'" using assms by simp
  then show ?thesis
    unfolding utf8_scan_append by (auto split: option.splits)
qed

lemma boundary_prefix:
  assumes valid: "utf8_scan 0 s = Some 0" and b: "char_boundary s p"
  shows "utf8_scan 0 (take p s) = Some 0"
proof -
  obtain q where q: "utf8_scan 0 (take p s) = Some q" "utf8_scan q (drop p s) = Some 0"
    using utf8_scan_take [OF valid] by blast
  show ?thesis
  proof (cases "p < length s")
    case True
    then have d: "drop p s = s ! p # drop (Suc p) s"
      by (simp add: Cons_nth_drop_Suc)
    from q(2) obtain q' where "utf8_step q (s ! p) = Some q'"
      unfolding d by (auto split: option.splits)
    from utf8_step_cont [OF this] b True have "q = 0"
      by (auto simp: char_boundary_def byte_at_def)
    with q show ?thesis by simp
  next
    case False
    with b have "p = length s" by (simp add: char_boundary_def)
    with valid show ?thesis by simp
  qed
qed

lemma slice_valid:
  assumes valid: "utf8_scan 0 s = Some 0"
    and bs: "char_boundary s a" and be: "char_boundary s b" and le: "a \<le> b"
  shows "utf8_scan 0 (take (b - a) (drop a s)) = Some 0"
proof -
  have "take b s = take a s @ take (b - a) (drop a s)"
    using le by (metis le_add_diff_inverse take_add)
  moreover have "utf8_scan 0 (take b s) = Some 0" "utf8_scan 0 (take a s) = Some 0"
    using boundary_prefix [OF valid] bs be by auto
  ultimately show ?thesis
    by (simp add: utf8_scan_append)
qed

lemma utf8_step_zero: "utf8_step 0 0 = Some 0"
  by (simp add: utf8_step.simps)

lemma utf8_scan_zeros: "utf8_scan 0 (replicate k 0) = Some 0"
  by (induction k) (auto simp: utf8_step_zero)

lemma utf8_scan_takeWhile:
  "utf8_scan r s = Some 0 \<Longrightarrow> utf8_scan r (takeWhile (\<lambda>c. c \<noteq> 0) s) = Some 0"
proof (induction s arbitrary: r)
  case Nil
  then show ?case by simp
next
  case (Cons c cs)
  show ?case
  proof (cases "c = 0")
    case True
    from Cons.prems True obtain q where "utf8_step r 0 = Some q"
      by (auto split: option.splits)
    from utf8_step_cont [OF this] have "r = 0" by (simp add: not_cont_zero)
    with True show ?thesis by simp
  next
    case False
    with Cons show ?thesis by (auto split: option.splits)
  qed
qed

lemma strncpy_valid:
  assumes "utf8_scan 0 (take n src) = Some 0"
  shows "utf8_scan 0 (strncpy src n) = Some 0"
  using utf8_scan_takeWhile [OF assms]
  by (simp add: strncpy_def Let_def utf8_scan_append utf8_scan_zeros)

lemma strncpy_no_nul:
  "0 \<notin> set src \<Longrightarrow> n \<le> length src \<Longrightarrow> strncpy src n = take n src"
proof -
  assume a: "0 \<notin> set src" and n: "n \<le> length src"
  have "\<forall>c\<in>set (take n src). c \<noteq> 0" using a by (metis in_set_takeD)
  then have tw: "takeWhile (\<lambda>c. c \<noteq> 0) (take n src) = take n src"
    by (simp add: takeWhile_eq_all_conv)
  show ?thesis unfolding strncpy_def Let_def tw using n by simp
qed

lemma advance_end_props:
  "e \<le> length s \<Longrightarrow>
     e \<le> advance_end s e \<and> char_boundary s (advance_end s e)
     \<and> (\<forall>p. e \<le> p \<and> p < advance_end s e \<longrightarrow> is_cont (byte_at s p))"
proof (induction s e rule: advance_end.induct)
  case (1 s e)
  show ?case
  proof (cases "e < length s \<and> is_cont (byte_at s e)")
    case True
    then have step: "advance_end s e = advance_end s (e + 1)"
      by (subst advance_end.simps) simp
    from True have "e + 1 \<le> length s" by simp
    from "1.IH" [OF True this]
    have ih: "e + 1 \<le> advance_end s (e + 1)" "char_boundary s (advance_end s (e + 1))"
      "\<forall>p. e + 1 \<le> p \<and> p < advance_end s (e + 1) \<longrightarrow> is_cont (byte_at s p)"
      by blast+
    have "is_cont (byte_at s p)" if "e \<le> p" "p < advance_end s (e + 1)" for p
    proof (cases "p = e")
      case True
      with \<open>e < length s \<and> is_cont (byte_at s e)\<close> show ?thesis by simp
    next
      case False
      with that have "e + 1 \<le> p" by simp
      with ih(3) that show ?thesis by blast
    qed
    with ih(1,2) show ?thesis
      unfolding step by simp
  next
    case False
    then have stop: "advance_end s e = e"
      by (subst advance_end.simps) auto
    from False "1.prems" have "char_boundary s e"
      by (auto simp: char_boundary_def byte_at_def not_cont_zero)
    then show ?thesis unfolding stop by auto
  qed
qed

text \<open>
  Claim C8 as stated (for every string and every in-range \<open>start \<le> end\<close>, \<open>substring\<close>
  returns a valid UTF-8 string) fails on the code.  In the valid four-byte string
  61 C3 A9 62 the index 2 points at the continuation byte A9; with \<open>start = 2\<close> and
  \<open>end = 3\<close>, both in range, the guard on the first byte raises \<open>bad first byte\<close> and
  no string is returned.
\<close>

theorem substring_rejects_continuation_start:
  "check_utf8 [0x61, 0xC3, 0xA9, 0x62] = - 1
   \<and> S_SUBSTRING [0x61, 0xC3, 0xA9, 0x62] 2 (Some 3) = Error ''bad first byte''"
  by (simp add: check_utf8_def S_SUBSTRING_def supplied_end_def clip_end_def Let_def
      is_cont_def byte_at_def)

text \<open>
  Nor does the primitive validate its argument: on a string that is not valid UTF-8 (as
  \<open>slice\<close> produces when it cuts a string inside a multi-byte sequence) the result can be
  invalid as well.  Here the argument is 61 C3, the first two bytes of the string above.
\<close>

lemma substring_of_invalid_string:
  "check_utf8 [0x61, 0xC3] = 2
   \<and> S_SUBSTRING [0x61, 0xC3] 0 (Some 2) = Ok [0x61, 0xC3]"
  by (simp add: check_utf8_def S_SUBSTRING_def supplied_end_def clip_end_def Let_def
      is_cont_def byte_at_def advance_end.simps lisp_string_new_def strncpy_def)

text \<open>
  Claim C8 as amended (UTF-8 discipline of \<open>substring\<close>).  For every string \<open>s\<close> that
  is valid UTF-8 (the source's own validator \<open>check_utf8\<close> returns \<open>-1\<close>) and every
  \<open>0 \<le> start \<le> end\<close> with \<open>start\<close> inside the string, the primitive either
  fails with \<open>bad first byte\<close> (exactly when \<open>start\<close> points at a continuation
  byte), or returns a string that is again valid UTF-8.  The slice begins at \<open>start\<close>
  and ends at \<open>e'\<close>, the supplied end (clipped to the length) advanced over
  continuation bytes: every byte skipped is a continuation byte, and neither \<open>start\<close>
  nor \<open>e'\<close> lies in the middle of a multi-byte sequence.
\<close>

theorem substring_utf8:
  assumes valid: "check_utf8 s = - 1"
    and s0: "0 \<le> start" and se: "start \<le> supplied_end s end_arg"
    and sl: "nat start \<le> length s"
  shows "(S_SUBSTRING s start end_arg = Error ''bad first byte''
            \<and> is_cont (byte_at s (nat start)))
       \<or> (\<exists>r e'. S_SUBSTRING s start end_arg = Ok r
            \<and> check_utf8 r = - 1
            \<and> e' = advance_end s (clip_end s (supplied_end s end_arg))
            \<and> clip_end s (supplied_end s end_arg) \<le> e'
            \<and> (\<forall>p. clip_end s (supplied_end s end_arg) \<le> p \<and> p < e' \<longrightarrow> is_cont (byte_at s p))
            \<and> char_boundary s (nat start) \<and> char_boundary s e'
            \<and> r = lisp_string_new (drop (nat start) s) (e' - nat start)
            \<and> (0 \<notin> set s \<longrightarrow> r = take (e' - nat start) (drop (nat start) s)))"
proof -
  define e1 where "e1 = clip_end s (supplied_end s end_arg)"
  define e2 where "e2 = advance_end s e1"
  have e1_le: "e1 \<le> length s" by (simp add: e1_def clip_end_def)
  have start_le_e1: "nat start \<le> e1"
    using s0 se sl by (auto simp: e1_def clip_end_def)
  from advance_end_props [OF e1_le]
  have adv: "e1 \<le> e2" "char_boundary s e2"
    "\<forall>p. e1 \<le> p \<and> p < e2 \<longrightarrow> is_cont (byte_at s p)"
    by (simp_all add: e2_def)
  have e2_le: "e2 \<le> length s" using adv(2) by (simp add: char_boundary_def)
  show ?thesis
  proof (cases "nat start < length s \<and> is_cont (byte_at s (nat start))")
    case True
    then show ?thesis
      using s0 se by (simp add: S_SUBSTRING_def Let_def)
  next
    case False
    then have bs: "char_boundary s (nat start)"
      using sl by (auto simp: char_boundary_def byte_at_def not_cont_zero)
    have nonneg: "\<not> int e2 - start < 0" using start_le_e1 adv(1) s0 by linarith
    define r where "r = lisp_string_new (drop (nat start) s) (e2 - nat start)"
    have res: "S_SUBSTRING s start end_arg = Ok r"
      using False s0 se nonneg
      by (simp add: S_SUBSTRING_def Let_def r_def e2_def e1_def)
    have sv: "utf8_scan 0 s = Some 0" using valid by (simp add: check_utf8_scan)
    have "utf8_scan 0 (take (e2 - nat start) (drop (nat start) s)) = Some 0"
      by (rule slice_valid [OF sv bs adv(2)]) (use start_le_e1 adv(1) in linarith)
    then have rv: "check_utf8 r = - 1"
      by (simp add: r_def lisp_string_new_def check_utf8_scan strncpy_valid)
    have nonul: "0 \<notin> set s \<longrightarrow> r = take (e2 - nat start) (drop (nat start) s)"
    proof
      assume "0 \<notin> set s"
      then have "0 \<notin> set (drop (nat start) s)" by (metis in_set_dropD)
      moreover have "e2 - nat start \<le> length (drop (nat start) s)"
        using e2_le by simp
      ultimately show "r = take (e2 - nat start) (drop (nat start) s)"
        by (simp add: r_def lisp_string_new_def strncpy_no_nul)
    qed
    show ?thesis
      using res rv adv bs nonul
      by (auto simp: e2_def e1_def r_def)
  qed
qed

text \<open>
  The theorem at the four-byte string 61 C3 A9 62, \<open>start = 0\<close>, \<open>end = 2\<close>:
  the end index falls inside the two-byte sequence C3 A9 and is advanced to 3.
\<close>

theorem substring_utf8_witness:
  "S_SUBSTRING [0x61, 0xC3, 0xA9, 0x62] 0 (Some 2) = Ok [0x61, 0xC3, 0xA9]
   \<and> check_utf8 [0x61, 0xC3, 0xA9, 0x62] = - 1
   \<and> check_utf8 [0x61, 0xC3, 0xA9] = - 1
   \<and> advance_end [0x61, 0xC3, 0xA9, 0x62] 2 = 3"
proof -
  have v: "check_utf8 [0x61, 0xC3, 0xA9, 0x62] = - 1"
    by (simp add: check_utf8_def)
  have h1: "(0::int) \<le> 0" by simp
  have h2: "(0::int) \<le> supplied_end [0x61, 0xC3, 0xA9, 0x62] (Some 2)"
    by (simp add: supplied_end_def)
  have h3: "nat 0 \<le> length [0x61, 0xC3, 0xA9, 0x62 :: byte]" by simp
  have adv: "advance_end [0x61, 0xC3, 0xA9, 0x62] 2 = 3"
    by (simp add: advance_end.simps is_cont_def byte_at_def)
  have cl: "clip_end [0x61, 0xC3, 0xA9, 0x62] (supplied_end [0x61, 0xC3, 0xA9, 0x62] (Some 2)) = 2"
    by (simp add: clip_end_def supplied_end_def)
  have nb: "\<not> is_cont (byte_at [0x61, 0xC3, 0xA9, 0x62] (nat 0))"
    by (simp add: is_cont_def byte_at_def)
  from substring_utf8 [OF v h1 h2 h3] nb
  show ?thesis
    unfolding cl adv
    by (auto simp: lisp_string_new_def strncpy_def v)
qed


section \<open>The tagged object model\<close>

text \<open>
  Object references.  \<open>Sym i\<close> is \<open>&_symtab[i]\<close>, the \<open>i\<close>-th interned constant of
  the static table (\<open>SYMID\<close> is the index), \<open>Nil\<close> is \<open>LISP_NIL\<close> (the static pair
  \<open>_lisp_nil\<close>), \<open>Obj a\<close> is an object allocated by \<open>new_obj\<close> at address \<open>a\<close>,
  and \<open>Null\<close> is the C null pointer.
\<close>

datatype ptr = Null | Sym nat | Nil | Obj nat

datatype Object_Type =
    O_INVALID | O_BUFFER | O_PORT | O_SYMBOL | O_STRING | O_NUMBER | O_PAIR
  | O_ARRAY | O_DICT | O_ENV | O_PROC | O_NATIVE_PROC | O_MACRO
  | O_OBJECT_EX | O_STREAM | O_SOURCE_FILE | O_SOURCE_MAPPING

text \<open>
  The static table \<open>_symtab\<close>: name, \<open>is_const\<close>, \<open>is_primitive\<close>, \<open>is_special\<close>,
  in the order of \<open>enum SymID\<close>.
\<close>

definition symtab :: "(string \<times> bool \<times> bool \<times> bool) list" where
  "symtab = [
     (''&key'', True, False, False), (''&label'', True, False, False),
     (''&optional'', True, False, False), (''&rest'', True, False, False),
     (''*'', False, True, False), (''*dot*'', True, False, False),
     (''*eof*'', True, False, False), (''*expr-mark*'', True, False, False),
     (''*frame-mark*'', True, False, False), (''*mark*'', True, False, False),
     (''*stderr*'', True, False, False), (''*stdin*'', True, False, False),
     (''*stdout*'', True, False, False), (''+'', False, True, False),
     (''-'', False, True, False), (''/'', False, True, False),
     (''<'', False, True, False), (''<='', False, True, False),
     (''='', False, True, False), (''>'', False, True, False),
     (''>='', False, True, False), (''abs'', False, True, False),
     (''acos'', False, True, False), (''and'', False, True, True),
     (''append'', False, True, False), (''apply'', False, True, False),
     (''array'', False, True, False), (''array->list'', False, True, False),
     (''array-count'', False, True, False), (''array-get'', False, True, False),
     (''array-pop!'', False, True, False), (''array-push!'', False, True, False),
     (''array-set!'', False, True, False), (''array?'', False, True, False),
     (''asin'', False, True, False), (''assoc'', False, True, False),
     (''atan'', False, True, False), (''atom?'', False, True, False),
     (''begin'', False, True, True), (''boolean?'', False, True, False),
     (''buffer->string'', False, True, False), (''buffer-append!'', False, True, False),
     (''buffer-getd'', False, True, False), (''buffer-getf'', False, True, False),
     (''buffer-geti16'', False, True, False), (''buffer-geti32'', False, True, False),
     (''buffer-geti8'', False, True, False), (''buffer-getu16'', False, True, False),
     (''buffer-getu32'', False, True, False), (''buffer-getu8'', False, True, False),
     (''buffer-set!'', False, True, False), (''buffer-setd!'', False, True, False),
     (''buffer-setf!'', False, True, False), (''buffer-seti16!'', False, True, False),
     (''buffer-seti32!'', False, True, False), (''buffer-seti8!'', False, True, False),
     (''buffer-setu16!'', False, True, False), (''buffer-setu32!'', False, True, False),
     (''buffer-setu8!'', False, True, False), (''car'', False, True, False),
     (''case'', False, True, True), (''catch'', False, True, True),
     (''cdr'', False, True, False), (''ceil'', False, True, False),
     (''char-at'', False, True, False), (''clear!'', False, True, False),
     (''clone'', False, True, False), (''close'', False, True, False),
     (''concat'', False, True, False), (''cond'', False, True, True),
     (''cons'', False, True, False), (''consq'', False, True, True),
     (''cos'', False, True, False), (''current-input'', False, True, False),
     (''current-output'', False, True, False), (''date'', False, True, False),
     (''debug'', False, True, True), (''defconst'', False, True, True),
     (''define'', False, True, True), (''defmacro'', False, True, True),
     (''defmethod'', False, True, True), (''dict'', False, True, False),
     (''dict->list'', False, True, False), (''dict-get'', False, True, False),
     (''dict-set!'', False, True, False), (''dict-unset!'', False, True, False),
     (''dict?'', False, True, False), (''display'', False, True, False),
     (''else'', True, False, False), (''env?'', False, True, False),
     (''eq?'', False, True, False), (''error'', False, True, False),
     (''eval'', False, True, False), (''evalq'', False, True, True),
     (''exists?'', False, True, False), (''exp'', False, True, False),
     (''false'', True, False, False), (''find-file'', False, True, False),
     (''floor'', False, True, False), (''flush'', False, True, False),
     (''format'', False, True, False), (''get'', False, True, False),
     (''get-byte-count'', False, True, False), (''get-output-buffer'', False, True, False),
     (''if'', False, True, True), (''input-port?'', False, True, False),
     (''integer?'', False, True, False), (''join'', False, True, False),
     (''lambda'', False, True, True), (''length'', False, True, False),
     (''let'', False, True, True), (''list'', False, True, False),
     (''list?'', False, True, False), (''load'', False, True, False),
     (''load-path'', False, False, False), (''log'', False, True, False),
     (''make-buffer'', False, True, False), (''match'', False, True, True),
     (''method?'', False, True, False), (''mod'', False, True, False),
     (''new'', False, True, False), (''newline'', False, True, False),
     (''not'', False, True, False), (''nth'', False, True, False),
     (''null?'', False, True, False), (''number->string'', False, True, False),
     (''number?'', False, True, False), (''open-input-buffer'', False, True, False),
     (''open-input-file'', False, True, False), (''open-output-buffer'', False, True, False),
     (''open-output-file'', False, True, False), (''or'', False, True, True),
     (''output-port?'', False, True, False), (''pair?'', False, True, False),
     (''print'', False, True, False), (''println'', False, True, False),
     (''procedure?'', False, True, False), (''pump'', False, True, False),
     (''quasiquote'', False, True, True), (''quote'', False, True, True),
     (''random'', False, True, False), (''random-seed'', False, True, False),
     (''read'', False, True, False), (''ready?'', False, True, False),
     (''return'', False, True, True), (''round'', False, True, False),
     (''seek'', False, True, False), (''set!'', False, True, True),
     (''set-current-error!'', False, True, False), (''set-current-input!'', False, True, False),
     (''set-current-output!'', False, True, False), (''sin'', False, True, False),
     (''slice'', False, True, False), (''sort'', False, True, False),
     (''split'', False, True, False), (''sqrt'', False, True, False),
     (''string->buffer'', False, True, False), (''string->number'', False, True, False),
     (''string->symbol'', False, True, False), (''string-compare'', False, True, False),
     (''string-find'', False, True, False), (''string-find-backward'', False, True, False),
     (''string-length'', False, True, False), (''string-quote'', False, True, False),
     (''string?'', False, True, False), (''substring'', False, True, False),
     (''symbol->string'', False, True, False), (''symbol?'', False, True, False),
     (''system'', False, True, False), (''tan'', False, True, False),
     (''this'', False, True, False), (''throw'', False, True, False),
     (''time'', False, True, False), (''trace'', False, True, False),
     (''true'', True, False, False), (''truncate'', False, True, False),
     (''undefined'', True, False, False), (''unquote'', True, False, False),
     (''unquote-splicing'', True, False, False), (''untrace'', False, True, False),
     (''with-input'', False, True, True), (''with-output'', False, True, True),
     (''write'', False, True, False), (''write-buffer'', False, True, False),
     (''write-string'', False, True, False)]"

definition S_TOTAL :: nat where
  "S_TOTAL = length symtab"

definition S_ERROR :: nat where "S_ERROR = 91"
definition S_FALSE :: nat where "S_FALSE = 96"
definition S_TRUE :: nat where "S_TRUE = 174"
definition S_UNDEF :: nat where "S_UNDEF = 176"

definition LISP_FALSE :: ptr where "LISP_FALSE = Sym S_FALSE"
definition LISP_TRUE :: ptr where "LISP_TRUE = Sym S_TRUE"
definition LISP_UNDEF :: ptr where "LISP_UNDEF = Sym S_UNDEF"

text \<open>
  The structs of lisp.c.  A buffer's \<open>buf\<close> holds its \<open>length\<close> bytes; an array's
  \<open>items\<close> is the whole storage of \<open>cap\<close> slots, of which the first \<open>count\<close>
  (\<open>array_count\<close>) are in use (a dictionary keeps its lazily built hash index in
  slot 0).  The fields \<open>cap\<close> of a buffer, \<open>name\<close> of a port and \<open>count\<close> of an
  array carry the struct's name as a prefix.  Every mutable
  object carries the identity of its owning VM.  Numbers are IEEE doubles in the
  source; they are reals here, which is enough where only integrality and range are
  tested.  The host callbacks \<open>mark\<close> of extension objects and streams are
  represented by the list of objects they pass to \<open>lisp_mark\<close>.
\<close>

record Lisp_Buffer =
  buf :: "byte list"
  buffer_cap :: nat
  buffer_vm :: nat

record Lisp_Port =
  port_vm :: nat
  port_name :: ptr
  iobuf :: ptr
  stream :: ptr
  src_file :: ptr
  input_pos :: nat
  byte_count :: nat
  max_output :: nat
  isatty :: bool
  no_buf :: bool
  out :: bool
  closed :: bool

record Lisp_Array =
  array_vm :: nat
  items :: "ptr list"
  array_count :: nat

record Lisp_Stream =
  stream_vm :: nat
  context_open :: bool
  sink :: "byte list"
  stream_marks :: "ptr list"

datatype Lisp_Body =
    Buffer Lisp_Buffer
  | Port Lisp_Port
  | Symbol "byte list"
  | String "byte list"
  | Number real
  | Pair (mapping: ptr) (car: ptr) (cdr: ptr)
  | Array Lisp_Array
  | Dict Lisp_Array
  | Env (bindings: ptr) (parent: ptr)
  | Proc ptr ptr
  | Macro ptr ptr
  | Native_Proc ptr ptr
  | ObjectEx nat "ptr list"
  | Stream Lisp_Stream
  | SourceFile ptr ptr
  | SourceMapping ptr ptr

record Lisp_Object =
  marked :: bool
  is_const :: bool
  body :: Lisp_Body

fun body_type :: "Lisp_Body \<Rightarrow> Object_Type" where
  "body_type (Buffer _) = O_BUFFER"
| "body_type (Port _) = O_PORT"
| "body_type (Symbol _) = O_SYMBOL"
| "body_type (String _) = O_STRING"
| "body_type (Number _) = O_NUMBER"
| "body_type (Pair _ _ _) = O_PAIR"
| "body_type (Array _) = O_ARRAY"
| "body_type (Dict _) = O_DICT"
| "body_type (Env _ _) = O_ENV"
| "body_type (Proc _ _) = O_PROC"
| "body_type (Macro _ _) = O_MACRO"
| "body_type (Native_Proc _ _) = O_NATIVE_PROC"
| "body_type (ObjectEx _ _) = O_OBJECT_EX"
| "body_type (Stream _) = O_STREAM"
| "body_type (SourceFile _ _) = O_SOURCE_FILE"
| "body_type (SourceMapping _ _) = O_SOURCE_MAPPING"

text \<open>
  The heap maps addresses to objects; a freed or never allocated address holds
  \<open>None\<close>.
\<close>

type_synonym heap = "Lisp_Object option list"

definition obj_at :: "heap \<Rightarrow> nat \<Rightarrow> Lisp_Object option" where
  "obj_at h a = (if a < length h then h ! a else None)"

text \<open>
  \<open>o->type\<close> for any reference: the interned constants are symbols, \<open>LISP_NIL\<close> is a
  pair.  A dangling or null reference has no type (\<open>O_INVALID\<close>).
\<close>

definition type_of :: "heap \<Rightarrow> ptr \<Rightarrow> Object_Type" where
  "type_of h p = (case p of
       Null \<Rightarrow> O_INVALID
     | Sym _ \<Rightarrow> O_SYMBOL
     | Nil \<Rightarrow> O_PAIR
     | Obj a \<Rightarrow> (case obj_at h a of None \<Rightarrow> O_INVALID | Some ob \<Rightarrow> body_type (body ob)))"

definition port_at :: "heap \<Rightarrow> ptr \<Rightarrow> Lisp_Port option" where
  "port_at h p = (case p of
       Obj a \<Rightarrow> (case obj_at h a of Some ob \<Rightarrow> (case body ob of Port q \<Rightarrow> Some q | _ \<Rightarrow> None)
                                | None \<Rightarrow> None)
     | _ \<Rightarrow> None)"

text \<open>
  The state of a VM that the primitives below touch: its identity (the value the
  owner pointers are compared with), the heap, the value stack (\<open>lisp_push\<close>
  appends at the end) and the current output port.
\<close>

record Lisp_VM =
  vm_id :: nat
  heap :: heap
  stack :: "ptr list"
  vm_output :: ptr

definition lisp_push :: "Lisp_VM \<Rightarrow> ptr \<Rightarrow> Lisp_VM" where
  "lisp_push vm p = vm\<lparr>stack := stack vm @ [p]\<rparr>"

text \<open>
  The argument list of a primitive is a proper list of already evaluated values; it is
  a HOL list here.  \<open>CAR\<close> of the empty list is \<open>LISP_UNDEF\<close>, because
  \<open>_lisp_nil\<close> has \<open>car = LISP_UNDEF\<close> and \<open>cdr = LISP_NIL\<close>.
\<close>

definition CAR :: "ptr list \<Rightarrow> ptr" where
  "CAR args = (case args of [] \<Rightarrow> LISP_UNDEF | x # _ \<Rightarrow> x)"

definition CDR :: "ptr list \<Rightarrow> ptr list" where
  "CDR args = (case args of [] \<Rightarrow> [] | _ # xs \<Rightarrow> xs)"

definition CADR :: "ptr list \<Rightarrow> ptr" where
  "CADR args = CAR (CDR args)"

definition CDDR :: "ptr list \<Rightarrow> ptr list" where
  "CDDR args = CDR (CDR args)"

section \<open>The port predicates\<close>

text \<open>
  The cases \<open>S_INPUT_PORTP\<close> and \<open>S_OUTPUT_PORTP\<close> of \<open>apply_primitive\<close>, branch by
  branch.
\<close>

definition port_is_out :: "heap \<Rightarrow> ptr \<Rightarrow> bool" where
  "port_is_out h p = (case port_at h p of Some q \<Rightarrow> out q | None \<Rightarrow> False)"

definition op_input_portp :: "Lisp_VM \<Rightarrow> ptr list \<Rightarrow> Lisp_VM res" where
  "op_input_portp vm args =
     (if type_of (heap vm) (CAR args) = O_PORT \<and> \<not> port_is_out (heap vm) (CAR args)
      then Ok (lisp_push vm LISP_FALSE)
      else Ok (lisp_push vm LISP_FALSE))"

definition op_output_portp :: "Lisp_VM \<Rightarrow> ptr list \<Rightarrow> Lisp_VM res" where
  "op_output_portp vm args =
     (if type_of (heap vm) (CAR args) = O_PORT \<and> port_is_out (heap vm) (CAR args)
      then Ok (lisp_push vm LISP_TRUE)
      else Ok (lisp_push vm LISP_FALSE))"

text \<open>
  Claim C10.  For every VM state and every argument list, \<open>input-port?\<close> pushes
  \<open>false\<close> and changes nothing else: both branches of its conditional push false.
\<close>

theorem input_portp_always_false:
  "op_input_portp vm args = Ok (vm\<lparr>stack := stack vm @ [Sym S_FALSE]\<rparr>)"
  by (simp add: op_input_portp_def lisp_push_def LISP_FALSE_def)

text \<open>
  In particular the answer is \<open>false\<close> for an open input port, where the sibling
  \<open>output-port?\<close> answers \<open>true\<close> on an output port.
\<close>

definition input_port_example :: Lisp_VM where
  "input_port_example =
     \<lparr>vm_id = 0,
      heap = [Some \<lparr>marked = False, is_const = False,
                    body = Port \<lparr>port_vm = 0, port_name = Null, iobuf = Null, stream = Null,
                                 src_file = Null, input_pos = 0, byte_count = 0,
                                 max_output = 0, isatty = False, no_buf = False,
                                 out = False, closed = False\<rparr>\<rparr>],
      stack = [], vm_output = Null\<rparr>"

lemma input_portp_on_input_port:
  "type_of (heap input_port_example) (Obj 0) = O_PORT
   \<and> \<not> port_is_out (heap input_port_example) (Obj 0)
   \<and> op_input_portp input_port_example [Obj 0]
       = Ok (input_port_example\<lparr>stack := [LISP_FALSE]\<rparr>)"
  by (simp add: input_port_example_def op_input_portp_def lisp_push_def type_of_def
      obj_at_def port_is_out_def port_at_def)

section \<open>Dictionaries: the hash index and the linear scan\<close>

text \<open>
  A dictionary is a \<open>Lisp_Array\<close> of type \<open>O_DICT\<close>: slot 0 of its storage is
  reserved for the lookup array, the binding pairs are in slots \<open>1 .. count - 1\<close> in
  insertion order.  Here \<open>entries\<close> is that list of pairs (so \<open>count\<close> is its length
  plus one), \<open>dcap\<close> is \<open>dict->cap\<close>, \<open>dalloc\<close> is the number of pointer slots
  that the block \<open>dict->items\<close> really holds, and \<open>table\<close> is the storage of the
  array referenced from slot 0 (\<open>None\<close> while slot 0 is \<open>NULL\<close>); the length of
  that storage is the lookup array's \<open>cap\<close>, and \<open>Null\<close> marks a free slot.
\<close>

definition DICT_LOOKUP_COUNT :: nat where
  "DICT_LOOKUP_COUNT = 8"

text \<open>
  \<open>hash_cstr\<close>: \<open>hash = c + (hash << 6) + (hash << 16) - hash\<close> over the bytes
  before the terminating NUL, in \<open>uint32_t\<close>.  \<open>c\<close> is an \<open>int\<close> read from a
  \<open>char\<close>, taken as signed (the x86 ABI), hence the sign-extending \<open>scast\<close>.
  \<open>lisp_string_hash\<close> caches the value in the string's \<open>hash\<close> field, which is
  zero until then, so it always returns \<open>hash_cstr\<close> of the name.  The names of the
  symbols are given by \<open>names\<close>; symbols are immutable.
\<close>

fun hash_cstr_loop :: "32 word \<Rightarrow> byte list \<Rightarrow> 32 word" where
  "hash_cstr_loop hash [] = hash"
| "hash_cstr_loop hash (c # s) =
     (if c = 0 then hash
      else hash_cstr_loop (scast c + push_bit 6 hash + push_bit 16 hash - hash) s)"

definition hash_cstr :: "byte list \<Rightarrow> 32 word" where
  "hash_cstr s = hash_cstr_loop 0 s"

definition lisp_string_hash :: "(ptr \<Rightarrow> byte list) \<Rightarrow> ptr \<Rightarrow> 32 word" where
  "lisp_string_hash names a = hash_cstr (names a)"

text \<open>
  The pairs live in a store, since \<open>lisp_dict_remove\<close> overwrites the \<open>cdr\<close> of a
  pair that both the entry list and the lookup array point to.  \<open>LISP_NIL\<close> is a pair
  too (its \<open>car\<close> is \<open>LISP_UNDEF\<close>) and a dictionary literal can hold it as an
  entry.
\<close>

record pair_heap =
  cells :: "(ptr \<times> ptr) list"
  nil_cdr :: ptr

definition pair_valid :: "pair_heap \<Rightarrow> ptr \<Rightarrow> bool" where
  "pair_valid h p = (case p of Nil \<Rightarrow> True | Obj a \<Rightarrow> a < length (cells h) | _ \<Rightarrow> False)"

definition pair_car :: "pair_heap \<Rightarrow> ptr \<Rightarrow> ptr" where
  "pair_car h p = (case p of Nil \<Rightarrow> LISP_UNDEF | Obj a \<Rightarrow> fst (cells h ! a) | _ \<Rightarrow> Null)"

definition pair_cdr :: "pair_heap \<Rightarrow> ptr \<Rightarrow> ptr" where
  "pair_cdr h p = (case p of Nil \<Rightarrow> nil_cdr h | Obj a \<Rightarrow> snd (cells h ! a) | _ \<Rightarrow> Null)"

definition set_cdr :: "pair_heap \<Rightarrow> ptr \<Rightarrow> ptr \<Rightarrow> pair_heap" where
  "set_cdr h p v = (case p of
       Nil \<Rightarrow> h\<lparr>nil_cdr := v\<rparr>
     | Obj a \<Rightarrow> h\<lparr>cells := (cells h)[a := (fst (cells h ! a), v)]\<rparr>
     | _ \<Rightarrow> h)"

definition lisp_pair_new :: "pair_heap \<Rightarrow> ptr \<Rightarrow> ptr \<Rightarrow> pair_heap \<times> ptr" where
  "lisp_pair_new h a d = (h\<lparr>cells := cells h @ [(a, d)]\<rparr>, Obj (length (cells h)))"

record Lisp_Dict =
  entries :: "ptr list"
  dcap :: nat
  dalloc :: nat
  table :: "ptr list option"

definition dict_count :: "Lisp_Dict \<Rightarrow> nat" where
  "dict_count d = length (entries d) + 1"

text \<open>
  Storage.  \<open>lisp_alloc\<close> refuses a request of 0 bytes (\<open>assert(size > 0)\<close>) and
  rounds the size up to a multiple of \<open>BLKSIZE\<close>; the result here is the size of the
  block (running out of memory is left out).  A pointer takes \<open>PTR_SIZE\<close> bytes, 8 on
  a 64-bit target.  \<open>lisp_array_new(vm, cap)\<close> asks for \<open>cap\<close> pointers but records
  \<open>cap > 4 ? cap : 4\<close> as the capacity, so the block of an array created with
  \<open>cap < 3\<close> is shorter than the capacity it records; the result is the number of
  zeroed slots of the block and the recorded capacity.  \<open>lisp_dict_new\<close> turns the
  array into a dictionary with \<open>count = 1\<close>.
\<close>

definition BLKSIZE :: nat where
  "BLKSIZE = 16"

definition PTR_SIZE :: nat where
  "PTR_SIZE = 8"

definition ROUND_BLOCK_SIZE :: "nat \<Rightarrow> nat" where
  "ROUND_BLOCK_SIZE sz = ((sz + (BLKSIZE - 1)) div BLKSIZE) * BLKSIZE"

definition lisp_alloc :: "nat \<Rightarrow> nat res" where
  "lisp_alloc sz = (if sz > 0 then Ok (ROUND_BLOCK_SIZE sz) else Abort)"

definition lisp_array_new :: "nat \<Rightarrow> (nat \<times> nat) res" where
  "lisp_array_new n =
     (case lisp_alloc (PTR_SIZE * n) of
        Ok bytes \<Rightarrow> Ok (bytes div PTR_SIZE, if n > 4 then n else 4)
      | Error e \<Rightarrow> Error e
      | Abort \<Rightarrow> Abort)"

definition lisp_dict_new :: "nat \<Rightarrow> Lisp_Dict res" where
  "lisp_dict_new n =
     (case lisp_array_new n of
        Ok (slots, c) \<Rightarrow> Ok \<lparr>entries = [], dcap = c, dalloc = slots, table = None\<rparr>
      | Error e \<Rightarrow> Error e
      | Abort \<Rightarrow> Abort)"

text \<open>
  The probe loops of \<open>lookup\<close> and \<open>add_to_lookup_table\<close>:
  \<open>for (i = h % (a->cap-1), n = 0; n < a->cap; n++) { ...; if (++i >= a->cap) i = 0; }\<close>.
  \<open>h % (cap - 1)\<close> divides by zero when \<open>cap = 1\<close>; running off the loop in
  \<open>add_to_lookup_table\<close> is \<open>assert(0)\<close> (\<open>None\<close>).
\<close>

definition probe_next :: "nat \<Rightarrow> nat \<Rightarrow> nat" where
  "probe_next cap i = (if i + 1 \<ge> cap then 0 else i + 1)"

function lookup_loop :: "pair_heap \<Rightarrow> ptr list \<Rightarrow> ptr \<Rightarrow> nat \<Rightarrow> nat \<Rightarrow> ptr" where
  "lookup_loop h a name i n =
     (if n < length a then
        (let p = a ! i in
         if p = Null then Null
         else if pair_car h p = name then p
         else lookup_loop h a name (probe_next (length a) i) (n + 1))
      else Null)"
  by pat_completeness auto
termination
  by (relation "measure (\<lambda>(h, a, name, i, n). length a - n)") auto

declare lookup_loop.simps [simp del]

definition lookup :: "(ptr \<Rightarrow> byte list) \<Rightarrow> pair_heap \<Rightarrow> ptr list \<Rightarrow> ptr \<Rightarrow> ptr res" where
  "lookup names h a name =
     (if length a = 1 then Abort
      else if length a = 0 then Ok Null
      else Ok (lookup_loop h a name (unat (lisp_string_hash names name) mod (length a - 1)) 0))"

function add_loop :: "ptr list \<Rightarrow> ptr \<Rightarrow> nat \<Rightarrow> nat \<Rightarrow> ptr list option" where
  "add_loop a p i n =
     (if n < length a then
        (if a ! i = Null then Some (a[i := p])
         else add_loop a p (probe_next (length a) i) (n + 1))
      else None)"
  by pat_completeness auto
termination
  by (relation "measure (\<lambda>(a, p, i, n). length a - n)") auto

declare add_loop.simps [simp del]

definition add_to_lookup_table ::
    "(ptr \<Rightarrow> byte list) \<Rightarrow> pair_heap \<Rightarrow> ptr list \<Rightarrow> ptr \<Rightarrow> ptr list option" where
  "add_to_lookup_table names h a p =
     (if length a \<le> 1 then None
      else add_loop a p (unat (lisp_string_hash names (pair_car h p)) mod (length a - 1)) 0)"

fun add_all_to_lookup_table ::
    "(ptr \<Rightarrow> byte list) \<Rightarrow> pair_heap \<Rightarrow> ptr list \<Rightarrow> ptr list \<Rightarrow> ptr list option" where
  "add_all_to_lookup_table names h a [] = Some a"
| "add_all_to_lookup_table names h a (p # ps) =
     (case add_to_lookup_table names h a p of
        None \<Rightarrow> None
      | Some a' \<Rightarrow> add_all_to_lookup_table names h a' ps)"

text \<open>
  \<open>lisp_dict_assoc\<close>: the lookup array when \<open>count > DICT_LOOKUP_COUNT\<close> (with
  \<open>assert(dict->items[0])\<close>), the loop over the entries otherwise.
\<close>

fun linear_loop :: "pair_heap \<Rightarrow> ptr list \<Rightarrow> ptr \<Rightarrow> ptr" where
  "linear_loop h [] name = Null"
| "linear_loop h (p # ps) name = (if name = pair_car h p then p else linear_loop h ps name)"

definition lisp_dict_assoc ::
    "(ptr \<Rightarrow> byte list) \<Rightarrow> pair_heap \<Rightarrow> Lisp_Dict \<Rightarrow> ptr \<Rightarrow> ptr res" where
  "lisp_dict_assoc names h d name =
     (if dict_count d > DICT_LOOKUP_COUNT then
        (case table d of None \<Rightarrow> Abort | Some a \<Rightarrow> lookup names h a name)
      else Ok (linear_loop h (entries d) name))"

text \<open>
  \<open>lisp_array_push\<close> doubles the capacity when the array is full
  (\<open>lisp_array_grow\<close>: the block is reallocated to twice the recorded capacity) and
  stores the object in slot \<open>count\<close>; a slot beyond the block is a write out of
  bounds.  \<open>lisp_dict_add_item\<close> then rebuilds the lookup array with twice the
  dictionary's capacity when there is none or it is too small, and adds the new pair
  to it otherwise.  The lookup array is probed over its whole recorded capacity, so a
  block shorter than that capacity is taken as a read out of bounds; the request is
  \<open>dict->cap * 2\<close>, at least 8 slots, for which the block is never shorter
  (\<open>lisp_array_new_double\<close> below).  The pushed object must be a valid pair
  (\<open>assert\<close> in \<open>lisp_array_push\<close>).
\<close>

definition lisp_array_push :: "Lisp_Dict \<Rightarrow> ptr \<Rightarrow> Lisp_Dict res" where
  "lisp_array_push d p =
     (let d1 = (if dict_count d = dcap d
                then d\<lparr>dcap := dcap d * 2,
                       dalloc := ROUND_BLOCK_SIZE (dcap d * PTR_SIZE * 2) div PTR_SIZE\<rparr>
                else d)
      in if dict_count d1 < dalloc d1 then Ok (d1\<lparr>entries := entries d1 @ [p]\<rparr>)
         else Abort)"

definition lisp_dict_add_item ::
    "(ptr \<Rightarrow> byte list) \<Rightarrow> pair_heap \<Rightarrow> Lisp_Dict \<Rightarrow> ptr \<Rightarrow> Lisp_Dict res" where
  "lisp_dict_add_item names h d p =
     (if \<not> pair_valid h p then Abort
      else
        (case lisp_array_push d p of
           Ok d1 \<Rightarrow>
             if dict_count d1 > DICT_LOOKUP_COUNT then
               (if table d1 = None \<or> length (the (table d1)) < dcap d1 * 2 then
                  (case lisp_array_new (dcap d1 * 2) of
                     Ok (slots, c) \<Rightarrow>
                       if slots < c then Abort
                       else
                         (case add_all_to_lookup_table names h (replicate c Null)
                                 (entries d1) of
                            None \<Rightarrow> Abort
                          | Some a \<Rightarrow> Ok (d1\<lparr>table := Some a\<rparr>))
                   | Error e \<Rightarrow> Error e
                   | Abort \<Rightarrow> Abort)
                else
                  (case add_to_lookup_table names h (the (table d1)) p of
                     None \<Rightarrow> Abort
                   | Some a \<Rightarrow> Ok (d1\<lparr>table := Some a\<rparr>)))
             else Ok d1
         | Error e \<Rightarrow> Error e
         | Abort \<Rightarrow> Abort))"

definition lisp_dict_add ::
    "(ptr \<Rightarrow> byte list) \<Rightarrow> pair_heap \<Rightarrow> Lisp_Dict \<Rightarrow> ptr \<Rightarrow> ptr \<Rightarrow> (pair_heap \<times> Lisp_Dict) res" where
  "lisp_dict_add names h d name val =
     (let (h', p) = lisp_pair_new h name val in
      case lisp_dict_add_item names h' d p of
        Ok d' \<Rightarrow> Ok (h', d')
      | Error e \<Rightarrow> Error e
      | Abort \<Rightarrow> Abort)"

definition lisp_dict_remove ::
    "(ptr \<Rightarrow> byte list) \<Rightarrow> pair_heap \<Rightarrow> Lisp_Dict \<Rightarrow> ptr \<Rightarrow> pair_heap res" where
  "lisp_dict_remove names h d name =
     (case lisp_dict_assoc names h d name of
        Ok p \<Rightarrow> Ok (if p \<noteq> Null then set_cdr h p LISP_UNDEF else h)
      | Error e \<Rightarrow> Error e
      | Abort \<Rightarrow> Abort)"

definition lisp_dict_clear :: "Lisp_Dict \<Rightarrow> Lisp_Dict" where
  "lisp_dict_clear d = d\<lparr>table := None, entries := []\<rparr>"

text \<open>
  The operations that build a dictionary: \<open>lisp_dict_add\<close> (a fresh pair),
  \<open>lisp_dict_add_item\<close> (an existing pair, as the reader does for a literal),
  \<open>lisp_dict_remove\<close> and \<open>lisp_dict_clear\<close>.
\<close>

datatype dict_op = Add ptr ptr | Add_item ptr | Remove ptr | Clear

fun dict_step ::
    "(ptr \<Rightarrow> byte list) \<Rightarrow> pair_heap \<times> Lisp_Dict \<Rightarrow> dict_op \<Rightarrow> (pair_heap \<times> Lisp_Dict) res" where
  "dict_step names (h, d) (Add name val) = lisp_dict_add names h d name val"
| "dict_step names (h, d) (Add_item p) =
     (case lisp_dict_add_item names h d p of
        Ok d' \<Rightarrow> Ok (h, d') | Error e \<Rightarrow> Error e | Abort \<Rightarrow> Abort)"
| "dict_step names (h, d) (Remove name) =
     (case lisp_dict_remove names h d name of
        Ok h' \<Rightarrow> Ok (h', d) | Error e \<Rightarrow> Error e | Abort \<Rightarrow> Abort)"
| "dict_step names (h, d) Clear = Ok (h, lisp_dict_clear d)"

fun dict_run ::
    "(ptr \<Rightarrow> byte list) \<Rightarrow> pair_heap \<times> Lisp_Dict \<Rightarrow> dict_op list \<Rightarrow> (pair_heap \<times> Lisp_Dict) res" where
  "dict_run names s [] = Ok s"
| "dict_run names s (x # xs) =
     (case dict_step names s x of
        Ok s' \<Rightarrow> dict_run names s' xs | Error e \<Rightarrow> Error e | Abort \<Rightarrow> Abort)"

text \<open>
  The specification's side of the refinement: a linear scan of the entries in
  insertion order that compares the key of each pair with the symbol by identity.
\<close>

definition linear_scan :: "pair_heap \<Rightarrow> Lisp_Dict \<Rightarrow> ptr \<Rightarrow> ptr" where
  "linear_scan h d name =
     (case find (\<lambda>p. pair_car h p = name) (entries d) of None \<Rightarrow> Null | Some p \<Rightarrow> p)"

subsection \<open>Invariant and example\<close>

definition no_key :: "pair_heap \<Rightarrow> ptr list \<Rightarrow> ptr \<Rightarrow> bool" where
  "no_key h a k \<longleftrightarrow> (\<forall>q\<in>set a. q \<noteq> Null \<longrightarrow> pair_car h q \<noteq> k)"

definition dict_inv :: "(ptr \<Rightarrow> byte list) \<Rightarrow> pair_heap \<Rightarrow> Lisp_Dict \<Rightarrow> bool" where
  "dict_inv names h d \<longleftrightarrow>
     (\<forall>p\<in>set (entries d). pair_valid h p) \<and> 4 \<le> dcap d \<and> dict_count d \<le> dcap d \<and>
     (case table d of
        None \<Rightarrow> dict_count d \<le> DICT_LOOKUP_COUNT
      | Some a \<Rightarrow> DICT_LOOKUP_COUNT < dict_count d \<and> 2 * dcap d \<le> length a \<and>
          add_all_to_lookup_table names h (replicate (length a) Null) (entries d) = Some a)"

definition block_ok :: "Lisp_Dict \<Rightarrow> bool" where
  "block_ok d \<longleftrightarrow> dcap d \<le> dalloc d"

definition nonnull :: "ptr list \<Rightarrow> nat" where
  "nonnull a = length (filter (\<lambda>x. x \<noteq> Null) a)"

definition example_names :: "ptr \<Rightarrow> byte list" where
  "example_names p = (case p of Sym i \<Rightarrow> [of_nat (97 + i)] | _ \<Rightarrow> [])"

definition example_ops :: "dict_op list" where
  "example_ops =
     [Add (Sym 0) (Sym 100), Add (Sym 1) (Sym 101), Add (Sym 2) (Sym 102),
      Add (Sym 3) (Sym 103), Add (Sym 4) (Sym 104), Add (Sym 5) (Sym 105),
      Add (Sym 1) (Sym 111), Add (Sym 6) (Sym 106), Add (Sym 7) (Sym 107),
      Remove (Sym 3), Add (Sym 3) (Sym 113)]"

definition example_heap :: pair_heap where
  "example_heap =
     \<lparr>cells = [(Sym 0, Sym 100), (Sym 1, Sym 101), (Sym 2, Sym 102), (Sym 3, Sym 176),
               (Sym 4, Sym 104), (Sym 5, Sym 105), (Sym 1, Sym 111), (Sym 6, Sym 106),
               (Sym 7, Sym 107), (Sym 3, Sym 113)],
      nil_cdr = Nil\<rparr>"

definition example_new :: Lisp_Dict where
  "example_new = \<lparr>entries = [], dcap = 8, dalloc = 8, table = None\<rparr>"

definition example_dict :: Lisp_Dict where
  "example_dict =
     \<lparr>entries = [Obj 0, Obj 1, Obj 2, Obj 3, Obj 4, Obj 5, Obj 6, Obj 7, Obj 8, Obj 9],
      dcap = 16, dalloc = 16,
      table = Some ([Null, Null, Null, Null, Obj 0, Obj 1, Obj 2, Obj 3, Obj 4, Obj 5,
                     Obj 6, Obj 7, Obj 8, Obj 9] @ replicate 18 Null)\<rparr>"

subsection \<open>Correctness of the probe loops\<close>

lemma probe_next_lt: "i < cap \<Longrightarrow> probe_next cap i < cap"
  by (simp add: probe_next_def)

lemma probe_next_mod: "i < cap \<Longrightarrow> probe_next cap i = (i + 1) mod cap"
  by (auto simp: probe_next_def le_Suc_eq)

lemma add_loop_shape:
  "add_loop a p i n = Some a' \<Longrightarrow> i < length a \<Longrightarrow>
     \<exists>j<length a. a ! j = Null \<and> a' = a[j := p]"
proof (induction a p i n rule: add_loop.induct)
  case (1 a p i n)
  show ?case
  proof (cases "n < length a")
    case False
    with "1.prems" show ?thesis by (simp add: add_loop.simps [of a p i n])
  next
    case True
    show ?thesis
    proof (cases "a ! i = Null")
      case isnull: True
      with True "1.prems" have "a' = a[i := p]"
        by (simp add: add_loop.simps [of a p i n])
      with isnull "1.prems" show ?thesis by blast
    next
      case nonnull: False
      with True "1.prems" have "add_loop a p (probe_next (length a) i) (n + 1) = Some a'"
        by (simp add: add_loop.simps [of a p i n])
      from "1.IH" [OF True nonnull this] "1.prems"(2) show ?thesis
        by (simp add: probe_next_lt)
    qed
  qed
qed

lemma lookup_absent:
  "no_key h a k \<Longrightarrow> i < length a \<Longrightarrow> lookup_loop h a k i n = Null"
proof (induction h a k i n rule: lookup_loop.induct)
  case (1 h a name i n)
  show ?case
  proof (cases "n < length a")
    case False
    then show ?thesis by (simp add: lookup_loop.simps [of h a name i n])
  next
    case True
    show ?thesis
    proof (cases "a ! i = Null")
      case True
      with \<open>n < length a\<close> show ?thesis by (simp add: lookup_loop.simps [of h a name i n])
    next
      case False
      from "1.prems" False have ne: "pair_car h (a ! i) \<noteq> name"
        by (auto simp: no_key_def)
      have "lookup_loop h a name (probe_next (length a) i) (n + 1) = Null"
        using "1.IH" [OF True refl False ne "1.prems"(1)] "1.prems"(2)
        by (simp add: probe_next_lt)
      with True False ne show ?thesis
        by (simp add: lookup_loop.simps [of h a name i n])
    qed
  qed
qed

lemma lookup_stable:
  "lookup_loop h a k i n = q \<Longrightarrow> q \<noteq> Null \<Longrightarrow> i < length a \<Longrightarrow> a ! j = Null \<Longrightarrow>
     lookup_loop h (a[j := p]) k i n = q"
proof (induction h a k i n rule: lookup_loop.induct)
  case (1 h a name i n)
  show ?case
  proof (cases "n < length a")
    case False
    with "1.prems" show ?thesis by (simp add: lookup_loop.simps [of h a name i n])
  next
    case True
    have nn: "a ! i \<noteq> Null"
      using "1.prems"(1,2) True by (auto simp: lookup_loop.simps [of h a name i n])
    with "1.prems"(4) have ij: "i \<noteq> j" by auto
    then have same: "a[j := p] ! i = a ! i" by simp
    show ?thesis
    proof (cases "pair_car h (a ! i) = name")
      case True
      with \<open>n < length a\<close> nn same "1.prems"(1) show ?thesis
        by (simp add: lookup_loop.simps [of h _ name i n])
    next
      case False
      with True nn "1.prems"(1)
      have rec: "lookup_loop h a name (probe_next (length a) i) (n + 1) = q"
        by (simp add: lookup_loop.simps [of h a name i n])
      have "lookup_loop h (a[j := p]) name (probe_next (length a) i) (n + 1) = q"
        using "1.IH" [OF True refl nn False rec "1.prems"(2) _ "1.prems"(4)] "1.prems"(3)
        by (simp add: probe_next_lt)
      with True nn same False show ?thesis
        by (simp add: lookup_loop.simps [of h "a[j := p]" name i n])
    qed
  qed
qed

lemma lookup_after_add:
  "add_loop a p i n = Some a' \<Longrightarrow> p \<noteq> Null \<Longrightarrow> no_key h a (pair_car h p) \<Longrightarrow> i < length a \<Longrightarrow>
     lookup_loop h a' (pair_car h p) i n = p"
proof (induction a p i n rule: add_loop.induct)
  case (1 a p i n)
  have len: "length a' = length a"
    using add_loop_shape [OF "1.prems"(1) "1.prems"(4)] by auto
  show ?case
  proof (cases "n < length a")
    case False
    with "1.prems" show ?thesis by (simp add: add_loop.simps [of a p i n])
  next
    case True
    show ?thesis
    proof (cases "a ! i = Null")
      case isnull: True
      with True "1.prems" have "a' = a[i := p]"
        by (simp add: add_loop.simps [of a p i n])
      with True "1.prems"(2,4) show ?thesis
        by (simp add: lookup_loop.simps [of h _ _ i n])
    next
      case nonnull: False
      with True "1.prems" have rec: "add_loop a p (probe_next (length a) i) (n + 1) = Some a'"
        by (simp add: add_loop.simps [of a p i n])
      from add_loop_shape [OF rec] "1.prems"(4)
      obtain j where j: "j < length a" "a ! j = Null" "a' = a[j := p]"
        by (auto simp: probe_next_lt)
      with nonnull have "i \<noteq> j" by auto
      with j have same: "a' ! i = a ! i" by simp
      from "1.prems"(3,4) nonnull have ne: "pair_car h (a ! i) \<noteq> pair_car h p"
        by (auto simp: no_key_def)
      have "lookup_loop h a' (pair_car h p) (probe_next (length a) i) (n + 1) = p"
        using "1.IH" [OF True nonnull rec "1.prems"(2,3)] "1.prems"(4)
        by (simp add: probe_next_lt)
      with True nonnull same ne len show ?thesis
        by (simp add: lookup_loop.simps [of h a' _ i n])
    qed
  qed
qed

lemma add_loop_none:
  "add_loop a p i n = None \<Longrightarrow> i < length a \<Longrightarrow>
     \<forall>m<length a - n. a ! ((i + m) mod length a) \<noteq> Null"
proof (induction a p i n rule: add_loop.induct)
  case (1 a p i n)
  show ?case
  proof (cases "n < length a")
    case False
    then show ?thesis by simp
  next
    case True
    with "1.prems" have nonnull: "a ! i \<noteq> Null"
      by (auto simp: add_loop.simps [of a p i n] split: if_splits)
    with True "1.prems" have rec: "add_loop a p (probe_next (length a) i) (n + 1) = None"
      by (simp add: add_loop.simps [of a p i n])
    have ih: "\<forall>m<length a - (n + 1). a ! ((probe_next (length a) i + m) mod length a) \<noteq> Null"
      using "1.IH" [OF True nonnull rec] "1.prems"(2) by (simp add: probe_next_lt)
    show ?thesis
    proof (intro allI impI)
      fix m assume m: "m < length a - n"
      show "a ! ((i + m) mod length a) \<noteq> Null"
      proof (cases m)
        case 0
        with nonnull "1.prems"(2) show ?thesis by simp
      next
        case (Suc m')
        with m have "m' < length a - (n + 1)" by simp
        with ih have "a ! ((probe_next (length a) i + m') mod length a) \<noteq> Null" by blast
        moreover have "(probe_next (length a) i + m') mod length a = (i + m) mod length a"
          using "1.prems"(2) Suc by (simp add: probe_next_mod mod_add_left_eq)
        ultimately show ?thesis by simp
      qed
    qed
  qed
qed

lemma add_loop_total:
  assumes j: "j < length a" "a ! j = Null" and i: "i < length a"
  shows "add_loop a p i 0 \<noteq> None"
proof
  assume "add_loop a p i 0 = None"
  from add_loop_none [OF this i] have all: "\<forall>m<length a. a ! ((i + m) mod length a) \<noteq> Null"
    by simp
  define m where "m = (j + length a - i) mod length a"
  have "0 < length a" using j(1) by (cases a) simp_all
  then have "m < length a" unfolding m_def by (rule mod_less_divisor)
  moreover have "(i + m) mod length a = j"
  proof -
    have "(i + m) mod length a = (i + (j + length a - i)) mod length a"
      by (simp add: m_def mod_add_right_eq)
    also have "i + (j + length a - i) = j + length a" using i by simp
    also have "(j + length a) mod length a = j" using j by simp
    finally show ?thesis .
  qed
  ultimately show False using all j(2) by metis
qed

lemma hash_index_lt:
  "2 \<le> n \<Longrightarrow> x mod (n - 1) < (n::nat)"
proof -
  assume "2 \<le> n"
  then have "0 < n - 1" by simp
  then have "x mod (n - 1) < n - 1" by (rule mod_less_divisor)
  then show ?thesis by simp
qed

lemma add_all_shape:
  "add_all_to_lookup_table names h a ps = Some a' \<Longrightarrow>
     length a' = length a \<and> set a' \<subseteq> set a \<union> set ps"
proof (induction ps arbitrary: a)
  case Nil
  then show ?case by simp
next
  case (Cons p ps)
  from Cons.prems obtain a1 where a1: "add_to_lookup_table names h a p = Some a1"
    and rest: "add_all_to_lookup_table names h a1 ps = Some a'"
    by (auto split: option.splits)
  from a1 have two: "2 \<le> length a" and
    al: "add_loop a p (unat (lisp_string_hash names (pair_car h p)) mod (length a - 1)) 0 = Some a1"
    by (auto simp: add_to_lookup_table_def split: if_splits)
  from two have "unat (lisp_string_hash names (pair_car h p)) mod (length a - 1) < length a"
    by (rule hash_index_lt)
  from add_loop_shape [OF al this] obtain j where "a1 = a[j := p]" by blast
  then have "length a1 = length a" "set a1 \<subseteq> set a \<union> {p}"
    using set_update_subset_insert [of a j p] by auto
  with Cons.IH [OF rest] show ?case by auto
qed

lemma add_all_snoc:
  "add_all_to_lookup_table names h a (ps @ [p]) =
     (case add_all_to_lookup_table names h a ps of
        None \<Rightarrow> None
      | Some a1 \<Rightarrow> add_to_lookup_table names h a1 p)"
  by (induction ps arbitrary: a) (auto split: option.splits)

lemma add_all_cong:
  "(\<forall>p\<in>set ps. pair_car h' p = pair_car h p) \<Longrightarrow>
     add_all_to_lookup_table names h' a ps = add_all_to_lookup_table names h a ps"
  by (induction ps arbitrary: a) (auto simp: add_to_lookup_table_def split: option.splits)

lemma linear_loop_in: "linear_loop h ps k \<in> set ps \<union> {Null}"
  by (induction ps) auto

lemma linear_loop_Null:
  "Null \<notin> set ps \<Longrightarrow> linear_loop h ps k = Null \<longleftrightarrow> (\<forall>q\<in>set ps. pair_car h q \<noteq> k)"
  by (induction ps) auto

lemma linear_loop_snoc:
  "Null \<notin> set ps \<Longrightarrow>
     linear_loop h (ps @ [p]) k =
       (if linear_loop h ps k \<noteq> Null then linear_loop h ps k
        else if k = pair_car h p then p else Null)"
proof (induction ps)
  case Nil
  show ?case by simp
next
  case (Cons q qs)
  then have q: "q \<noteq> Null" and qs: "Null \<notin> set qs" by auto
  show ?case
  proof (cases "k = pair_car h q")
    case True
    then have "linear_loop h ((q # qs) @ [p]) k = q" "linear_loop h (q # qs) k = q"
      by simp_all
    with q show ?thesis by (simp only: not_False_eq_True if_True simp_thms)
  next
    case False
    then have "linear_loop h ((q # qs) @ [p]) k = linear_loop h (qs @ [p]) k"
      "linear_loop h (q # qs) k = linear_loop h qs k"
      by simp_all
    with Cons.IH [OF qs] show ?thesis by (simp only:)
  qed
qed

lemma lookup_filled:
  assumes "2 \<le> n" and "Null \<notin> set ps"
    and "add_all_to_lookup_table names h (replicate n Null) ps = Some a"
  shows "lookup names h a k = Ok (linear_loop h ps k)"
  using assms(2,3)
proof (induction ps arbitrary: a rule: rev_induct)
  case Nil
  then have a: "a = replicate n Null" by simp
  have "unat (lisp_string_hash names k) mod (n - 1) < n"
    using assms(1) by (rule hash_index_lt)
  then have "lookup_loop h a k (unat (lisp_string_hash names k) mod (length a - 1)) 0 = Null"
    by (intro lookup_absent) (simp_all add: a no_key_def)
  with assms(1) show ?case by (simp add: lookup_def a)
next
  case (snoc p ps)
  from snoc.prems(2) obtain a1 where a1: "add_all_to_lookup_table names h (replicate n Null) ps = Some a1"
    and ap: "add_to_lookup_table names h a1 p = Some a"
    unfolding add_all_snoc by (auto split: option.splits)
  from snoc.prems(1) have nn: "Null \<notin> set ps" "p \<noteq> Null" by auto
  from add_all_shape [OF a1] have len1: "length a1 = n" and sub1: "set a1 \<subseteq> {Null} \<union> set ps"
    by auto
  from ap len1 assms(1) have
    al: "add_loop a1 p (unat (lisp_string_hash names (pair_car h p)) mod (n - 1)) 0 = Some a"
    by (auto simp: add_to_lookup_table_def split: if_splits)
  have ilt: "\<And>x. x mod (n - 1) < length a1" using hash_index_lt [OF assms(1)] len1 by simp
  from add_loop_shape [OF al ilt] obtain j where j: "j < length a1" "a1 ! j = Null" "a = a1[j := p]"
    by blast
  then have len: "length a = n" using len1 by simp
  define idx where "idx = (\<lambda>k. unat (lisp_string_hash names k) mod (n - 1))"
  have al': "add_loop a1 p (idx (pair_car h p)) 0 = Some a" using al by (simp add: idx_def)
  have ilt': "idx k < length a1" for k using ilt by (simp add: idx_def)
  have ih: "lookup names h a1 k = Ok (linear_loop h ps k)" by (rule snoc.IH [OF nn(1) a1])
  have "lookup names h a1 k = Ok (lookup_loop h a1 k (idx k) 0)"
    using assms(1) len1 by (simp add: lookup_def idx_def)
  with ih have ih': "lookup_loop h a1 k (idx k) 0 = linear_loop h ps k" by simp
  have goal_eq: "lookup names h a k = Ok (lookup_loop h a k (idx k) 0)"
    using assms(1) len by (simp add: lookup_def idx_def)
  have snoc_eq: "linear_loop h (ps @ [p]) k =
       (if linear_loop h ps k \<noteq> Null then linear_loop h ps k
        else if k = pair_car h p then p else Null)"
    using nn(1) by (rule linear_loop_snoc)
  show ?case
  proof (cases "linear_loop h ps k = Null")
    case False
    from lookup_stable [OF ih' False ilt' j(2)] j(3)
    have "lookup_loop h a k (idx k) 0 = linear_loop h ps k"
      by simp
    with False show ?thesis unfolding goal_eq snoc_eq by simp
  next
    case True
    with nn have absent: "\<forall>q\<in>set ps. pair_car h q \<noteq> k" by (simp add: linear_loop_Null)
    then have nk1: "no_key h a1 k" using sub1 by (auto simp: no_key_def)
    show ?thesis
    proof (cases "k = pair_car h p")
      case keq: True
      have "no_key h a1 (pair_car h p)" using nk1 keq by simp
      from lookup_after_add [OF al' nn(2) this ilt']
      have "lookup_loop h a k (idx k) 0 = p" using keq by simp
      with True keq show ?thesis unfolding goal_eq snoc_eq by simp
    next
      case kne: False
      have "set a \<subseteq> set a1 \<union> {p}" using j(3) set_update_subset_insert [of a1 j p] by auto
      with nk1 kne have "no_key h a k" by (auto simp: no_key_def)
      moreover have "idx k < length a" using ilt' len len1 by simp
      ultimately have "lookup_loop h a k (idx k) 0 = Null"
        by (rule lookup_absent)
      with True kne show ?thesis unfolding goal_eq snoc_eq by simp
    qed
  qed
qed

lemma nonnull_update:
  assumes "j < length a" "a ! j = Null"
  shows "nonnull (a[j := p]) \<le> nonnull a + 1"
proof -
  have "a = take j a @ a ! j # drop (Suc j) a" using assms(1) by (simp add: id_take_nth_drop)
  then have "nonnull a = nonnull (take j a) + nonnull (drop (Suc j) a)"
    using assms(2) by (metis (mono_tags, lifting) add.right_neutral filter.simps(2) filter_append length_append nonnull_def)
  moreover have "a[j := p] = take j a @ p # drop (Suc j) a"
    using assms(1) by (simp add: upd_conv_take_nth_drop)
  then have "nonnull (a[j := p]) \<le> nonnull (take j a) + 1 + nonnull (drop (Suc j) a)"
    by (simp add: nonnull_def)
  ultimately show ?thesis by simp
qed

lemma exists_null:
  assumes "nonnull a < length a"
  shows "\<exists>j<length a. a ! j = Null"
proof (rule ccontr)
  assume "\<not> ?thesis"
  then have "\<forall>x\<in>set a. x \<noteq> Null" by (metis in_set_conv_nth)
  then have "filter (\<lambda>x. x \<noteq> Null) a = a" by (simp add: filter_id_conv)
  with assms show False by (simp add: nonnull_def)
qed

lemma nonnull_replicate: "nonnull (replicate n Null) = 0"
  by (simp add: nonnull_def)

lemma add_to_lookup_table_total:
  assumes "2 \<le> length a" "nonnull a < length a"
  shows "\<exists>a'. add_to_lookup_table names h a p = Some a' \<and> length a' = length a
            \<and> nonnull a' \<le> nonnull a + 1"
proof -
  define i where "i = unat (lisp_string_hash names (pair_car h p)) mod (length a - 1)"
  have i: "i < length a" unfolding i_def using assms(1) by (rule hash_index_lt)
  from exists_null [OF assms(2)] obtain j where j: "j < length a" "a ! j = Null" by blast
  from add_loop_total [OF j i] obtain a' where a': "add_loop a p i 0 = Some a'" by auto
  from add_loop_shape [OF a' i] obtain j' where j': "j' < length a" "a ! j' = Null" "a' = a[j' := p]"
    by blast
  have "add_to_lookup_table names h a p = Some a'"
    using assms(1) a' by (simp add: add_to_lookup_table_def i_def)
  moreover have "length a' = length a" using j'(3) by simp
  moreover have "nonnull a' \<le> nonnull a + 1" using nonnull_update [OF j'(1,2)] j'(3) by simp
  ultimately show ?thesis by blast
qed

lemma add_all_total:
  "2 \<le> length a \<Longrightarrow> nonnull a + length ps < length a \<Longrightarrow>
     \<exists>a'. add_all_to_lookup_table names h a ps = Some a' \<and> length a' = length a
          \<and> nonnull a' \<le> nonnull a + length ps"
proof (induction ps arbitrary: a)
  case Nil
  then show ?case by simp
next
  case (Cons p ps)
  from Cons.prems have "nonnull a < length a" by simp
  from add_to_lookup_table_total [OF Cons.prems(1) this]
  obtain a1 where a1: "add_to_lookup_table names h a p = Some a1" "length a1 = length a"
    "nonnull a1 \<le> nonnull a + 1" by blast
  have "2 \<le> length a1" "nonnull a1 + length ps < length a1"
    using a1 Cons.prems by simp_all
  from Cons.IH [OF this] obtain a' where
    "add_all_to_lookup_table names h a1 ps = Some a'" "length a' = length a1"
    "nonnull a' \<le> nonnull a1 + length ps" by blast
  with a1 show ?case by simp
qed

lemma add_all_nonnull:
  assumes "add_all_to_lookup_table names h (replicate n Null) ps = Some a"
    and "2 \<le> n" and "length ps < n"
  shows "nonnull a \<le> length ps"
  using add_all_total [of "replicate n Null" ps names h] assms
  by (auto simp: nonnull_replicate)

lemma pair_valid_not_Null: "pair_valid h p \<Longrightarrow> p \<noteq> Null"
  by (auto simp: pair_valid_def)

lemma dict_inv_heap:
  assumes "dict_inv names h d"
    and "\<forall>p. pair_valid h p \<longrightarrow> pair_valid h' p \<and> pair_car h' p = pair_car h p"
  shows "dict_inv names h' d"
proof -
  from assms have "\<forall>p\<in>set (entries d). pair_car h' p = pair_car h p"
    by (auto simp: dict_inv_def)
  then have "add_all_to_lookup_table names h' a (entries d) = add_all_to_lookup_table names h a (entries d)" for a
    by (rule add_all_cong)
  with assms show ?thesis
    by (auto simp: dict_inv_def split: option.splits)
qed

lemma round_block_double: "ROUND_BLOCK_SIZE (m * PTR_SIZE * 2) div PTR_SIZE = m * 2"
proof -
  have "(m * 16 + 15) div 16 = m" by simp
  then show ?thesis by (simp add: ROUND_BLOCK_SIZE_def BLKSIZE_def PTR_SIZE_def)
qed

lemma lisp_array_new_double:
  assumes "4 \<le> m"
  shows "lisp_array_new (m * 2) = Ok (m * 2, m * 2)"
proof -
  have "(8 * (m * 2) + 15) div 16 = m" by simp
  then have "ROUND_BLOCK_SIZE (PTR_SIZE * (m * 2)) div PTR_SIZE = m * 2"
    by (simp add: ROUND_BLOCK_SIZE_def BLKSIZE_def PTR_SIZE_def)
  with assms show ?thesis by (simp add: lisp_array_new_def lisp_alloc_def PTR_SIZE_def)
qed

lemma lisp_array_push_Ok:
  assumes "lisp_array_push d p = Ok d1"
  shows "entries d1 = entries d @ [p]"
    and "table d1 = table d"
    and "dcap d1 = (if dict_count d = dcap d then dcap d * 2 else dcap d)"
    and "dict_count d1 = dict_count d + 1"
  using assms
  by (auto simp: lisp_array_push_def Let_def dict_count_def split: if_splits)

lemma lisp_array_push_total:
  assumes "block_ok d" and "dict_count d \<le> dcap d"
  shows "\<exists>d1. lisp_array_push d p = Ok d1 \<and> block_ok d1"
proof (cases "dict_count d = dcap d")
  case True
  then have "0 < dcap d" by (simp add: dict_count_def)
  with True show ?thesis
    by (simp add: lisp_array_push_def Let_def block_ok_def round_block_double dict_count_def)
next
  case False
  with assms show ?thesis
    by (simp add: lisp_array_push_def Let_def block_ok_def dict_count_def)
qed

lemma add_item_inv:
  assumes inv: "dict_inv names h d" and valid: "pair_valid h p"
    and push: "lisp_array_push d p = Ok d1"
  shows "\<exists>d'. lisp_dict_add_item names h d p = Ok d' \<and> dict_inv names h d'
            \<and> entries d' = entries d @ [p] \<and> dcap d' = dcap d1 \<and> dalloc d' = dalloc d1"
proof -
  have e1: "entries d1 = entries d @ [p]" and t1: "table d1 = table d"
    and c1: "dict_count d1 = dict_count d + 1"
    and cap1: "dcap d1 = (if dict_count d = dcap d then dcap d * 2 else dcap d)"
    using lisp_array_push_Ok [OF push] by simp_all
  from inv have cap: "4 \<le> dcap d" "dict_count d \<le> dcap d"
    and ev: "\<forall>q\<in>set (entries d). pair_valid h q"
    by (auto simp: dict_inv_def)
  have cap1': "4 \<le> dcap d1" "dict_count d1 \<le> dcap d1"
    using cap by (auto simp: cap1 c1)
  have ev1: "\<forall>q\<in>set (entries d1). pair_valid h q" using ev valid by (simp add: e1)
  have len1: "length (entries d1) < dcap d1" using cap1'(2) by (simp add: dict_count_def)
  show ?thesis
  proof (cases "dict_count d1 > DICT_LOOKUP_COUNT")
    case False
    then have "table d = None"
      using inv by (auto simp: dict_inv_def c1 split: option.splits)
    with False cap1' ev1 have "dict_inv names h d1"
      by (simp add: dict_inv_def t1)
    moreover have "lisp_dict_add_item names h d p = Ok d1"
      using valid False by (simp add: lisp_dict_add_item_def push)
    ultimately show ?thesis using e1 by blast
  next
    case big: True
    show ?thesis
    proof (cases "table d1 = None \<or> length (the (table d1)) < dcap d1 * 2")
      case True
      define n where "n = dcap d1 * 2"
      have n: "n = 2 * dcap d1" by (simp add: n_def)
      have new: "lisp_array_new (dcap d1 * 2) = Ok (n, n)"
        using lisp_array_new_double [OF cap1'(1)] by (simp add: n_def)
      have "2 \<le> length (replicate n Null)" using n cap1'(1) by simp
      moreover have "nonnull (replicate n Null) + length (entries d1) < length (replicate n Null)"
        using len1 n by (simp add: nonnull_replicate)
      ultimately obtain a where a: "add_all_to_lookup_table names h (replicate n Null) (entries d1) = Some a"
        "length a = length (replicate n Null)"
        using add_all_total by blast
      then have la: "length a = n" by simp
      have res: "lisp_dict_add_item names h d p = Ok (d1\<lparr>table := Some a\<rparr>)"
        using valid big True a(1)
        by (simp add: lisp_dict_add_item_def push new)
      have "dict_inv names h (d1\<lparr>table := Some a\<rparr>)"
        using big cap1' ev1 a(1) la n by (simp add: dict_inv_def dict_count_def)
      with res e1 show ?thesis by auto
    next
      case False
      then obtain a0 where a0: "table d1 = Some a0" "dcap d1 * 2 \<le> length a0"
        by (cases "table d1") auto
      from a0(1) t1 have td: "table d = Some a0" by simp
      with inv have old: "add_all_to_lookup_table names h (replicate (length a0) Null) (entries d) = Some a0"
        by (simp add: dict_inv_def)
      have l0: "2 \<le> length a0" using a0(2) cap1'(1) by simp
      have "length (entries d) < length a0" using len1 a0(2) by (simp add: e1)
      from add_all_nonnull [OF old l0 this] have "nonnull a0 < length a0"
        using len1 a0(2) by (simp add: e1)
      from add_to_lookup_table_total [OF l0 this, of names h p]
      obtain a' where a': "add_to_lookup_table names h a0 p = Some a'" "length a' = length a0"
        by blast
      have fill: "add_all_to_lookup_table names h (replicate (length a') Null) (entries d1) = Some a'"
        using old a' by (simp add: e1 add_all_snoc)
      have res: "lisp_dict_add_item names h d p = Ok (d1\<lparr>table := Some a'\<rparr>)"
        using valid big False a0 a'(1)
        by (simp add: lisp_dict_add_item_def push)
      have "dict_inv names h (d1\<lparr>table := Some a'\<rparr>)"
        using big cap1' ev1 fill a'(2) a0(2) by (simp add: dict_inv_def dict_count_def)
      with res e1 show ?thesis by auto
    qed
  qed
qed

lemma assoc_linear:
  assumes inv: "dict_inv names h d"
  shows "lisp_dict_assoc names h d k = Ok (linear_loop h (entries d) k)"
proof (cases "dict_count d > DICT_LOOKUP_COUNT")
  case False
  then show ?thesis by (simp add: lisp_dict_assoc_def)
next
  case True
  with inv obtain a where a: "table d = Some a" "2 * dcap d \<le> length a" "4 \<le> dcap d"
    "add_all_to_lookup_table names h (replicate (length a) Null) (entries d) = Some a"
    by (auto simp: dict_inv_def split: option.splits)
  have "Null \<notin> set (entries d)"
    using inv pair_valid_not_Null by (auto simp: dict_inv_def)
  moreover have "2 \<le> length a" using a(2,3) by simp
  ultimately have "lookup names h a k = Ok (linear_loop h (entries d) k)"
    using a(4) by (intro lookup_filled)
  with True a(1) show ?thesis by (simp add: lisp_dict_assoc_def)
qed

lemma linear_loop_find:
  "linear_loop h ps k = (case find (\<lambda>p. pair_car h p = k) ps of None \<Rightarrow> Null | Some p \<Rightarrow> p)"
  by (induction ps) auto

lemma set_cdr_valid: "pair_valid (set_cdr h q v) p = pair_valid h p"
  by (cases p; cases q) (simp_all add: pair_valid_def set_cdr_def)

lemma update_fst_same:
  "fst (xs[b := (fst (xs ! b), v)] ! a) = fst (xs ! a)"
proof (cases "b < length xs")
  case True
  then show ?thesis by (cases "a = b") simp_all
next
  case False
  then have "xs[b := (fst (xs ! b), v)] = xs" by (simp add: list_update_beyond)
  then show ?thesis by simp
qed

lemma set_cdr_car: "pair_car (set_cdr h q v) p = pair_car h p"
  by (cases p; cases q) (simp_all add: pair_car_def set_cdr_def update_fst_same)

lemma pair_new_keeps:
  assumes "lisp_pair_new h a v = (h', p)"
  shows "pair_valid h' p" "pair_car h' p = a"
    "\<forall>q. pair_valid h q \<longrightarrow> pair_valid h' q \<and> pair_car h' q = pair_car h q"
  using assms
  by (auto simp: lisp_pair_new_def pair_valid_def pair_car_def nth_append split: ptr.splits)

lemma add_item_push:
  assumes "lisp_dict_add_item names h d p = Ok d'"
  shows "pair_valid h p \<and> (\<exists>d1. lisp_array_push d p = Ok d1)"
  using assms by (auto simp: lisp_dict_add_item_def split: if_splits res.splits)

lemma dict_inv_new:
  assumes "lisp_dict_new n = Ok d0"
  shows "dict_inv names h d0"
  using assms
  by (auto simp: dict_inv_def lisp_dict_new_def lisp_array_new_def lisp_alloc_def
      dict_count_def DICT_LOOKUP_COUNT_def split: if_splits res.splits)

lemma round_block_ge: "sz \<le> ROUND_BLOCK_SIZE sz"
proof -
  have "(sz + 15) div 16 * 16 + (sz + 15) mod 16 = sz + 15" by simp
  moreover have "(sz + 15) mod 16 < 16" by simp
  ultimately have "sz \<le> (sz + 15) div 16 * 16" by linarith
  then show ?thesis by (simp add: ROUND_BLOCK_SIZE_def BLKSIZE_def)
qed

lemma dict_new_block_ok:
  assumes "3 \<le> n"
  shows "\<exists>d0. lisp_dict_new n = Ok d0 \<and> block_ok d0"
proof -
  have ge: "8 * n \<le> ROUND_BLOCK_SIZE (8 * n)" by (rule round_block_ge)
  have "39 div 16 \<le> (8 * n + 15) div (16::nat)"
    using assms by (intro div_le_mono) simp
  then have "2 \<le> (8 * n + 15) div 16" by simp
  then have "32 \<le> (8 * n + 15) div 16 * 16" by simp
  then have r: "32 \<le> ROUND_BLOCK_SIZE (8 * n)"
    by (simp add: ROUND_BLOCK_SIZE_def BLKSIZE_def)
  from ge have "8 * n div 8 \<le> ROUND_BLOCK_SIZE (8 * n) div 8" by (rule div_le_mono)
  then have a: "n \<le> ROUND_BLOCK_SIZE (8 * n) div 8" by simp
  from r have "32 div 8 \<le> ROUND_BLOCK_SIZE (8 * n) div 8" by (rule div_le_mono)
  then have b: "4 \<le> ROUND_BLOCK_SIZE (8 * n) div 8" by simp
  from a b assms show ?thesis
    by (simp add: lisp_dict_new_def lisp_array_new_def lisp_alloc_def PTR_SIZE_def block_ok_def)
qed

lemma dict_step_inv:
  assumes "dict_inv names h d" and "dict_step names (h, d) x = Ok (h', d')"
  shows "dict_inv names h' d'"
proof (cases x)
  case (Add name val)
  obtain h1 p where np: "lisp_pair_new h name val = (h1, p)" by (cases "lisp_pair_new h name val")
  from pair_new_keeps [OF np] assms(1) have i1: "dict_inv names h1 d" and v: "pair_valid h1 p"
    using dict_inv_heap by blast+
  from assms(2) Add np obtain d2 where "lisp_dict_add_item names h1 d p = Ok d2"
    by (auto simp: lisp_dict_add_def split: res.splits)
  from add_item_push [OF this] obtain d0 where "lisp_array_push d p = Ok d0" by blast
  from add_item_inv [OF i1 v this] obtain d1 where
    "lisp_dict_add_item names h1 d p = Ok d1" "dict_inv names h1 d1" by blast
  with assms(2) Add np show ?thesis by (simp add: lisp_dict_add_def)
next
  case (Add_item p)
  with assms(2) obtain d2 where "lisp_dict_add_item names h d p = Ok d2"
    by (auto split: res.splits)
  from add_item_push [OF this] obtain d0 where v: "pair_valid h p"
    and "lisp_array_push d p = Ok d0" by blast
  from add_item_inv [OF assms(1) v this(2)] obtain d1 where
    "lisp_dict_add_item names h d p = Ok d1" "dict_inv names h d1" by blast
  with assms(2) Add_item show ?thesis by simp
next
  case (Remove name)
  have "\<forall>p. pair_valid h p \<longrightarrow> pair_valid (set_cdr h q v) p \<and> pair_car (set_cdr h q v) p = pair_car h p" for q v
    by (simp add: set_cdr_valid set_cdr_car)
  from dict_inv_heap [OF assms(1) this] assms(1,2) Remove show ?thesis
    by (auto simp: lisp_dict_remove_def assoc_linear split: res.splits if_splits)
next
  case Clear
  with assms show ?thesis
    by (auto simp: lisp_dict_clear_def dict_inv_def dict_count_def DICT_LOOKUP_COUNT_def)
qed

lemma dict_run_inv:
  "dict_inv names (fst s) (snd s) \<Longrightarrow> dict_run names s ops = Ok s' \<Longrightarrow>
     dict_inv names (fst s') (snd s')"
proof (induction ops arbitrary: s)
  case Nil
  then show ?case by simp
next
  case (Cons x xs)
  from Cons.prems(2) obtain s1 where s1: "dict_step names s x = Ok s1" "dict_run names s1 xs = Ok s'"
    by (auto split: res.splits)
  from dict_step_inv [of names "fst s" "snd s" x "fst s1" "snd s1"] Cons.prems(1) s1(1)
  have "dict_inv names (fst s1) (snd s1)" by simp
  from Cons.IH [OF this s1(2)] show ?case .
qed

text \<open>
  Claim C9.  For every dictionary that \<open>lisp_dict_new\<close> creates and any sequence of
  insertions, removals and clears builds without a failed assertion or a write past the
  block of the array, and for every symbol, \<open>lisp_dict_assoc\<close> returns exactly the pair that the linear scan of the
  entries returns (\<open>Null\<close> when there is none); and whenever the lookup array is in
  use, that is when \<open>count > 8\<close> (eight entries or more, slot 0 included in the
  count), the array is present and the hashed probe of \<open>lookup\<close> itself returns that
  pair.
\<close>

theorem dict_index_refines_linear_scan:
  assumes "lisp_dict_new n = Ok d0"
    and "dict_run names (h0, d0) ops = Ok (h, d)"
  shows "lisp_dict_assoc names h d name = Ok (linear_scan h d name)
       \<and> (DICT_LOOKUP_COUNT < dict_count d \<longrightarrow>
            (\<exists>a. table d = Some a \<and> lookup names h a name = Ok (linear_scan h d name)))"
proof -
  have "dict_inv names (fst (h0, d0)) (snd (h0, d0))"
    using dict_inv_new [OF assms(1)] by simp
  from dict_run_inv [OF this assms(2)] have inv: "dict_inv names h d" by simp
  have lin: "linear_scan h d name = linear_loop h (entries d) name"
    by (simp add: linear_scan_def linear_loop_find)
  from assoc_linear [OF inv] have a: "lisp_dict_assoc names h d name = Ok (linear_scan h d name)"
    by (simp add: lin)
  moreover have "\<exists>a. table d = Some a \<and> lookup names h a name = Ok (linear_scan h d name)"
    if "DICT_LOOKUP_COUNT < dict_count d"
    using a that inv by (auto simp: lisp_dict_assoc_def dict_inv_def split: option.splits)
  ultimately show ?thesis by blast
qed

text \<open>
  When the block of the dictionary holds as many slots as the recorded capacity, which
  \<open>lisp_dict_new\<close> gives from \<open>n = 3\<close> on, nothing fails along the way: every
  sequence of operations whose inserted pairs exist runs to the end.
\<close>

lemma dict_step_ok:
  assumes "dict_inv names h d" and "block_ok d"
    and "\<forall>p. x = Add_item p \<longrightarrow> pair_valid h p"
  shows "\<exists>h' d'. dict_step names (h, d) x = Ok (h', d') \<and> block_ok d'"
proof -
  from assms(1) have le: "dict_count d \<le> dcap d" by (simp add: dict_inv_def)
  show ?thesis
  proof (cases x)
    case (Add name val)
    obtain h1 p where np: "lisp_pair_new h name val = (h1, p)"
      by (cases "lisp_pair_new h name val")
    from pair_new_keeps [OF np] assms(1) have i1: "dict_inv names h1 d" and v: "pair_valid h1 p"
      using dict_inv_heap by blast+
    from lisp_array_push_total [OF assms(2) le, of p] obtain d0 where
      d0: "lisp_array_push d p = Ok d0" "block_ok d0" by blast
    from add_item_inv [OF i1 v d0(1)] obtain d1 where
      "lisp_dict_add_item names h1 d p = Ok d1" "dcap d1 = dcap d0" "dalloc d1 = dalloc d0"
      by blast
    with Add np d0(2) show ?thesis by (simp add: lisp_dict_add_def block_ok_def)
  next
    case (Add_item p)
    with assms(3) have v: "pair_valid h p" by simp
    from lisp_array_push_total [OF assms(2) le, of p] obtain d0 where
      d0: "lisp_array_push d p = Ok d0" "block_ok d0" by blast
    from add_item_inv [OF assms(1) v d0(1)] obtain d1 where
      "lisp_dict_add_item names h d p = Ok d1" "dcap d1 = dcap d0" "dalloc d1 = dalloc d0"
      by blast
    with Add_item d0(2) show ?thesis by (simp add: block_ok_def)
  next
    case (Remove name)
    with assms(1,2) show ?thesis by (simp add: lisp_dict_remove_def assoc_linear)
  next
    case Clear
    with assms(2) show ?thesis by (simp add: lisp_dict_clear_def block_ok_def)
  qed
qed

lemma dict_run_ok:
  "dict_inv names (fst s) (snd s) \<Longrightarrow> block_ok (snd s) \<Longrightarrow>
   \<forall>p. Add_item p \<notin> set ops \<Longrightarrow> \<exists>s'. dict_run names s ops = Ok s'"
proof (induction ops arbitrary: s)
  case Nil
  then show ?case by simp
next
  case (Cons x xs)
  have "\<forall>p. x = Add_item p \<longrightarrow> pair_valid (fst s) p" using Cons.prems(3) by auto
  from dict_step_ok [OF _ _ this, of names "snd s"] Cons.prems(1,2)
  obtain h1 d1 where s1: "dict_step names s x = Ok (h1, d1)" and b1: "block_ok d1" by auto
  from dict_step_inv [of names "fst s" "snd s" x h1 d1] Cons.prems(1) s1
  have "dict_inv names (fst (h1, d1)) (snd (h1, d1))" by simp
  moreover have "block_ok (snd (h1, d1))" using b1 by simp
  moreover have "\<forall>p. Add_item p \<notin> set xs" using Cons.prems(3) by auto
  ultimately obtain s' where "dict_run names (h1, d1) xs = Ok s'" using Cons.IH by blast
  with s1 show ?case by simp
qed

text \<open>
  Below that size the dictionary cannot be built: \<open>lisp_dict_new 0\<close> stops at the
  assertion of \<open>lisp_alloc\<close>, and a dictionary created with \<open>n = 2\<close> (or 1) has a
  block of two slots under a recorded capacity of four, so that its second insertion
  writes past the block.
\<close>

lemma dict_new_small:
  "lisp_dict_new 0 = Abort"
  "lisp_dict_new 2 = Ok \<lparr>entries = [], dcap = 4, dalloc = 2, table = None\<rparr>"
  "lisp_array_push \<lparr>entries = [], dcap = 4, dalloc = 2, table = None\<rparr> (Obj 0)
     = Ok \<lparr>entries = [Obj 0], dcap = 4, dalloc = 2, table = None\<rparr>"
  "lisp_array_push \<lparr>entries = [Obj 0], dcap = 4, dalloc = 2, table = None\<rparr> (Obj 1) = Abort"
  by (simp_all add: lisp_dict_new_def lisp_array_new_def lisp_alloc_def ROUND_BLOCK_SIZE_def
      BLKSIZE_def PTR_SIZE_def lisp_array_push_def dict_count_def Let_def)

text \<open>
  Ten insertions with one key inserted twice and one removed and inserted again; the
  symbols are named \<open>a\<close>, \<open>b\<close>, ...
\<close>

lemma example_new: "lisp_dict_new 8 = Ok example_new"
  by (simp add: lisp_dict_new_def lisp_array_new_def lisp_alloc_def ROUND_BLOCK_SIZE_def
      BLKSIZE_def PTR_SIZE_def example_new_def)

lemma example_run:
  "dict_run example_names (\<lparr>cells = [], nil_cdr = Nil\<rparr>, example_new) example_ops
     = Ok (example_heap, example_dict)"
  by code_simp

theorem dict_index_refines_linear_scan_witness:
  "lisp_dict_new 8 = Ok example_new
   \<and> dict_run example_names (\<lparr>cells = [], nil_cdr = Nil\<rparr>, example_new) example_ops
     = Ok (example_heap, example_dict)
   \<and> DICT_LOOKUP_COUNT < dict_count example_dict
   \<and> linear_scan example_heap example_dict (Sym 1) = Obj 1
   \<and> lisp_dict_assoc example_names example_heap example_dict (Sym 1) = Ok (Obj 1)
   \<and> lookup example_names example_heap (the (table example_dict)) (Sym 1) = Ok (Obj 1)"
proof -
  have c: "DICT_LOOKUP_COUNT < dict_count example_dict"
    by (simp add: DICT_LOOKUP_COUNT_def dict_count_def example_dict_def)
  have l: "linear_scan example_heap example_dict (Sym 1) = Obj 1"
    by (simp add: linear_scan_def example_dict_def example_heap_def pair_car_def)
  from dict_index_refines_linear_scan [OF example_new example_run, of "Sym 1"] c l
  show ?thesis
    using example_new example_run by auto
qed

section \<open>Primitives that modify arrays, buffers and ports\<close>

text \<open>
  The cases of \<open>apply_primitive\<close> that write into an object, with the helpers they
  call.  Objects live in the heap and are reached by pointer; each primitive returns
  the VM with the result pushed, or the error it raises.  \<open>res_bind\<close> sequences two
  steps: an error or an abort of the first step is the result.
\<close>

definition res_bind :: "'a res \<Rightarrow> ('a \<Rightarrow> 'b res) \<Rightarrow> 'b res" where
  "res_bind r f = (case r of Ok x \<Rightarrow> f x | Error e \<Rightarrow> Error e | Abort \<Rightarrow> Abort)"

text \<open>
  Reading a field through a pointer.  \<open>is_const_at\<close> is the \<open>is_const\<close> bit of the object
  header (for a reserved symbol, the bit of its row in the symbol table; \<open>LISP_NIL\<close> is
  constant).  The other accessors give the body when the object has the expected type.
\<close>

definition is_const_at :: "heap \<Rightarrow> ptr \<Rightarrow> bool" where
  "is_const_at h p = (case p of
       Null \<Rightarrow> False
     | Sym i \<Rightarrow> i < length symtab \<and> fst (snd (symtab ! i))
     | Nil \<Rightarrow> True
     | Obj a \<Rightarrow> (case obj_at h a of None \<Rightarrow> False | Some ob \<Rightarrow> is_const ob))"

definition array_at :: "heap \<Rightarrow> ptr \<Rightarrow> Lisp_Array option" where
  "array_at h p = (case p of
       Obj a \<Rightarrow> (case obj_at h a of
                   Some ob \<Rightarrow> (case body ob of Array r \<Rightarrow> Some r | Dict r \<Rightarrow> Some r | _ \<Rightarrow> None)
                 | None \<Rightarrow> None)
     | _ \<Rightarrow> None)"

definition buffer_at :: "heap \<Rightarrow> ptr \<Rightarrow> Lisp_Buffer option" where
  "buffer_at h p = (case p of
       Obj a \<Rightarrow> (case obj_at h a of
                   Some ob \<Rightarrow> (case body ob of Buffer b \<Rightarrow> Some b | _ \<Rightarrow> None)
                 | None \<Rightarrow> None)
     | _ \<Rightarrow> None)"

definition stream_at :: "heap \<Rightarrow> ptr \<Rightarrow> Lisp_Stream option" where
  "stream_at h p = (case p of
       Obj a \<Rightarrow> (case obj_at h a of
                   Some ob \<Rightarrow> (case body ob of Stream s \<Rightarrow> Some s | _ \<Rightarrow> None)
                 | None \<Rightarrow> None)
     | _ \<Rightarrow> None)"

definition string_at :: "heap \<Rightarrow> ptr \<Rightarrow> byte list option" where
  "string_at h p = (case p of
       Obj a \<Rightarrow> (case obj_at h a of
                   Some ob \<Rightarrow> (case body ob of String s \<Rightarrow> Some s | _ \<Rightarrow> None)
                 | None \<Rightarrow> None)
     | _ \<Rightarrow> None)"

definition number_at :: "heap \<Rightarrow> ptr \<Rightarrow> real option" where
  "number_at h p = (case p of
       Obj a \<Rightarrow> (case obj_at h a of
                   Some ob \<Rightarrow> (case body ob of Number d \<Rightarrow> Some d | _ \<Rightarrow> None)
                 | None \<Rightarrow> None)
     | _ \<Rightarrow> None)"

definition set_body :: "heap \<Rightarrow> ptr \<Rightarrow> Lisp_Body \<Rightarrow> heap" where
  "set_body h p b = (case p of
       Obj a \<Rightarrow> (case obj_at h a of Some ob \<Rightarrow> h[a := Some (ob\<lparr>body := b\<rparr>)] | None \<Rightarrow> h)
     | _ \<Rightarrow> h)"

text \<open>
  \<open>safe_ptr\<close>, \<open>lisp_safe_int\<close> and the macro \<open>vm_check\<close>: the argument checks of the
  primitives.  \<open>vm_check\<close> compares the running VM with the owner stored in the object.
\<close>

definition safe_ptr :: "heap \<Rightarrow> ptr \<Rightarrow> Object_Type \<Rightarrow> unit res" where
  "safe_ptr h p ty = (if type_of h p = ty then Ok () else Error ''expect %s but got %s'')"

definition is_integer :: "real \<Rightarrow> bool" where
  "is_integer d = (d = of_int (round d))"

definition INT_MAX :: int where "INT_MAX = 2147483647"
definition INT_MIN :: int where "INT_MIN = - 2147483648"

definition lisp_safe_int :: "heap \<Rightarrow> ptr \<Rightarrow> int res" where
  "lisp_safe_int h p = (case number_at h p of
       None \<Rightarrow> Error ''not an integer''
     | Some d \<Rightarrow>
         if \<not> is_integer d then Error ''not an integer''
         else if d > of_int INT_MAX \<or> d < of_int INT_MIN then Error ''integer out of range''
         else Ok \<lfloor>d\<rfloor>)"

definition vm_check :: "Lisp_VM \<Rightarrow> nat \<Rightarrow> unit res" where
  "vm_check vm x = (if vm_id vm \<noteq> x then Error ''Can not modify foreign object'' else Ok ())"

definition push_result :: "Lisp_VM \<Rightarrow> heap \<Rightarrow> ptr \<Rightarrow> Lisp_VM res" where
  "push_result vm h p = Ok (lisp_push (vm\<lparr>heap := h\<rparr>) p)"

subsection \<open>Arrays\<close>

text \<open>
  \<open>array-get\<close>, \<open>array-set!\<close>, \<open>array-pop!\<close> and \<open>array-push!\<close>.  The three writers call
  \<open>vm_check\<close>; none of them reads the \<open>is_const\<close> bit of the array.
\<close>

definition op_array_get :: "Lisp_VM \<Rightarrow> ptr list \<Rightarrow> Lisp_VM res" where
  "op_array_get vm args =
     res_bind (safe_ptr (heap vm) (CAR args) O_ARRAY) (\<lambda>_.
       case array_at (heap vm) (CAR args) of
         None \<Rightarrow> Abort
       | Some a \<Rightarrow>
           res_bind (lisp_safe_int (heap vm) (CADR args)) (\<lambda>index.
             if index < 0 \<or> nat index \<ge> array_count a then Error ''array-get: out of bound''
             else Ok (lisp_push vm (items a ! nat index))))"

definition op_array_set :: "Lisp_VM \<Rightarrow> ptr list \<Rightarrow> Lisp_VM res" where
  "op_array_set vm args =
     res_bind (safe_ptr (heap vm) (CAR args) O_ARRAY) (\<lambda>_.
       case array_at (heap vm) (CAR args) of
         None \<Rightarrow> Abort
       | Some a \<Rightarrow>
           res_bind (vm_check vm (array_vm a)) (\<lambda>_.
           res_bind (lisp_safe_int (heap vm) (CADR args)) (\<lambda>index.
             if index < 0 \<or> nat index \<ge> array_count a then Error ''array-set: out of bound''
             else push_result vm
                    (set_body (heap vm) (CAR args)
                       (Array (a\<lparr>items := (items a)[nat index := CAR (CDR (CDR args))]\<rparr>)))
                    LISP_UNDEF)))"

definition valid_object :: "heap \<Rightarrow> ptr \<Rightarrow> bool" where
  "valid_object h p = (type_of h p \<noteq> O_INVALID)"

definition lisp_array_grow :: "Lisp_Array \<Rightarrow> Lisp_Array" where
  "lisp_array_grow a = a\<lparr>items := items a @ replicate (length (items a)) Null\<rparr>"

definition lisp_array_push_obj :: "heap \<Rightarrow> Lisp_Array \<Rightarrow> ptr \<Rightarrow> Lisp_Array res" where
  "lisp_array_push_obj h a p =
     (if \<not> valid_object h p then Abort
      else
        (let a1 = (if array_count a = length (items a) then lisp_array_grow a else a)
         in if array_count a1 < length (items a1)
            then Ok (a1\<lparr>items := (items a1)[array_count a1 := p],
                        array_count := array_count a1 + 1\<rparr>)
            else Abort))"

definition lisp_array_pop :: "Lisp_Array \<Rightarrow> nat \<Rightarrow> (Lisp_Array \<times> ptr) res" where
  "lisp_array_pop a n =
     (if array_count a \<ge> n \<and> array_count a > 0 \<and> array_count a \<le> length (items a)
      then Ok (a\<lparr>array_count := array_count a - n\<rparr>, items a ! (array_count a - 1))
      else Abort)"

definition op_array_pop :: "Lisp_VM \<Rightarrow> ptr list \<Rightarrow> Lisp_VM res" where
  "op_array_pop vm args =
     res_bind (safe_ptr (heap vm) (CAR args) O_ARRAY) (\<lambda>_.
       case array_at (heap vm) (CAR args) of
         None \<Rightarrow> Abort
       | Some a \<Rightarrow>
           res_bind (vm_check vm (array_vm a)) (\<lambda>_.
           res_bind (lisp_array_pop a 1) (\<lambda>(a', ob).
             push_result vm (set_body (heap vm) (CAR args) (Array a')) ob)))"

definition op_array_push :: "Lisp_VM \<Rightarrow> ptr list \<Rightarrow> Lisp_VM res" where
  "op_array_push vm args =
     res_bind (safe_ptr (heap vm) (CAR args) O_ARRAY) (\<lambda>_.
       case array_at (heap vm) (CAR args) of
         None \<Rightarrow> Abort
       | Some a \<Rightarrow>
           res_bind (vm_check vm (array_vm a)) (\<lambda>_.
           res_bind (lisp_array_push_obj (heap vm) a (CADR args)) (\<lambda>a'.
             push_result vm (set_body (heap vm) (CAR args) (Array a')) LISP_UNDEF)))"

subsection \<open>Buffers\<close>

text \<open>
  \<open>clear!\<close> and \<open>buffer-set!\<close>.  \<open>lisp_buffer_clear\<close> asserts that the buffer is not constant;
  \<open>buffer-set!\<close> writes the bytes itself and has no such test.
\<close>

definition lisp_buffer_clear :: "heap \<Rightarrow> ptr \<Rightarrow> heap res" where
  "lisp_buffer_clear h p =
     (case buffer_at h p of
        None \<Rightarrow> Abort
      | Some b \<Rightarrow> if is_const_at h p then Abort
                  else Ok (set_body h p (Buffer (b\<lparr>buf := []\<rparr>))))"

definition lisp_dict_clear_array :: "Lisp_Array \<Rightarrow> Lisp_Array" where
  "lisp_dict_clear_array a = a\<lparr>items := (items a)[0 := Null], array_count := 1\<rparr>"

definition op_clear :: "Lisp_VM \<Rightarrow> ptr list \<Rightarrow> Lisp_VM res" where
  "op_clear vm args =
     (let ob = CAR args; h = heap vm in
      if type_of h ob = O_BUFFER then
        (case buffer_at h ob of
           None \<Rightarrow> Abort
         | Some b \<Rightarrow>
             res_bind (vm_check vm (buffer_vm b)) (\<lambda>_.
             res_bind (lisp_buffer_clear h ob) (\<lambda>h'. push_result vm h' ob)))
      else if type_of h ob = O_ARRAY then
        (case array_at h ob of
           None \<Rightarrow> Abort
         | Some a \<Rightarrow>
             res_bind (vm_check vm (array_vm a)) (\<lambda>_.
               push_result vm (set_body h ob (Array (a\<lparr>array_count := 0\<rparr>))) ob))
      else if type_of h ob = O_DICT then
        (case array_at h ob of
           None \<Rightarrow> Abort
         | Some a \<Rightarrow>
             res_bind (vm_check vm (array_vm a)) (\<lambda>_.
               push_result vm (set_body h ob (Dict (lisp_dict_clear_array a))) ob))
      else Ok (lisp_push vm ob))"

fun buffer_set_loop :: "byte list \<Rightarrow> nat \<Rightarrow> byte list \<Rightarrow> byte list" where
  "buffer_set_loop b1 i [] = b1"
| "buffer_set_loop b1 i (c # b2) =
     (if i < length b1 then buffer_set_loop (b1[i := c]) (i + 1) b2 else b1)"

definition op_buffer_set :: "Lisp_VM \<Rightarrow> ptr list \<Rightarrow> Lisp_VM res" where
  "op_buffer_set vm args =
     res_bind (safe_ptr (heap vm) (CAR args) O_BUFFER) (\<lambda>_.
       case buffer_at (heap vm) (CAR args) of
         None \<Rightarrow> Abort
       | Some b1 \<Rightarrow>
           res_bind (vm_check vm (buffer_vm b1)) (\<lambda>_.
           res_bind (lisp_safe_int (heap vm) (CADR args)) (\<lambda>i.
           res_bind (safe_ptr (heap vm) (CAR (CDDR args)) O_BUFFER) (\<lambda>_.
             case buffer_at (heap vm) (CAR (CDDR args)) of
               None \<Rightarrow> Abort
             | Some b2 \<Rightarrow>
                 if i < 0 \<or> nat i \<ge> length (buf b1) then Error ''Bad offset''
                 else push_result vm
                        (set_body (heap vm) (CAR args)
                           (Buffer (b1\<lparr>buf := buffer_set_loop (buf b1) (nat i) (buf b2)\<rparr>)))
                        LISP_UNDEF))))"

subsection \<open>Ports\<close>

text \<open>
  An output port collects bytes in its \<open>iobuf\<close> and hands them to its stream on
  \<open>lisp_port_flush\<close>; a port opened on a buffer has no stream and keeps them.  The
  stream's \<open>write\<close> callback belongs to the host: here it appends to \<open>sink\<close> and
  accepts every byte.  \<open>lisp_buffer_grow\<close> doubles the capacity until it suffices
  (a capacity of 0 would never grow: \<open>lisp_buffer_new\<close> gives at least 64).
  \<open>flush\<close> calls \<open>vm_check\<close>; \<open>newline\<close> and \<open>write-string\<close> go to \<open>lisp_port_putc\<close> and
  \<open>lisp_port_puts\<close> without it.
\<close>

function grow_cap :: "nat \<Rightarrow> nat \<Rightarrow> nat" where
  "grow_cap sz c = (if sz > c \<and> c > 0 then grow_cap sz (c * 2) else c)"
  by pat_completeness auto
termination
  by (relation "measure (\<lambda>(sz, c). sz - c)") auto

declare grow_cap.simps [simp del]

definition lisp_buffer_grow :: "Lisp_Buffer \<Rightarrow> nat \<Rightarrow> Lisp_Buffer res" where
  "lisp_buffer_grow sb sz =
     (if sz > buffer_cap sb then
        (if buffer_cap sb = 0 then Abort
         else Ok (sb\<lparr>buffer_cap := grow_cap sz (buffer_cap sb)\<rparr>))
      else Ok sb)"

definition lisp_buffer_add :: "heap \<Rightarrow> ptr \<Rightarrow> byte \<Rightarrow> heap res" where
  "lisp_buffer_add h p c =
     (case buffer_at h p of
        None \<Rightarrow> Abort
      | Some b \<Rightarrow>
          if is_const_at h p then Abort
          else res_bind (if length (buf b) + 1 \<ge> buffer_cap b
                         then lisp_buffer_grow b (buffer_cap b * 2) else Ok b) (\<lambda>b1.
                 Ok (set_body h p (Buffer (b1\<lparr>buf := buf b1 @ [c]\<rparr>)))))"

definition lisp_buffer_add_byte :: "heap \<Rightarrow> ptr \<Rightarrow> byte \<Rightarrow> heap res" where
  "lisp_buffer_add_byte h p c = (if is_const_at h p then Abort else lisp_buffer_add h p c)"

definition lisp_stream_write :: "heap \<Rightarrow> ptr \<Rightarrow> byte list \<Rightarrow> (heap \<times> nat) res" where
  "lisp_stream_write h sp bytes =
     (case stream_at h sp of
        None \<Rightarrow> Abort
      | Some s \<Rightarrow>
          if \<not> context_open s then Ok (h, 0)
          else Ok (set_body h sp (Stream (s\<lparr>sink := sink s @ bytes\<rparr>)), length bytes))"

definition lisp_port_flush :: "heap \<Rightarrow> ptr \<Rightarrow> heap res" where
  "lisp_port_flush h pp =
     (case port_at h pp of
        None \<Rightarrow> Abort
      | Some port \<Rightarrow>
          if \<not> out port then Abort
          else if stream port = Null \<or> iobuf port = Null then Ok h
          else
            (case buffer_at h (iobuf port) of
               None \<Rightarrow> Abort
             | Some b \<Rightarrow>
                 if length (buf b) = 0 then Ok h
                 else
                   res_bind
                     (if max_output port > 0 then
                        (if byte_count port < max_output port then
                           lisp_stream_write h (stream port)
                             (take (min (max_output port - byte_count port) (length (buf b))) (buf b))
                         else Ok (h, 0))
                      else lisp_stream_write h (stream port) (buf b))
                     (\<lambda>(h1, n).
                        Ok (set_body
                              (set_body h1 pp (Port (port\<lparr>byte_count := byte_count port + n\<rparr>)))
                              (iobuf port) (Buffer (b\<lparr>buf := []\<rparr>))))))"

definition iobuf_state :: "heap \<Rightarrow> ptr \<Rightarrow> (nat \<times> nat) res" where
  "iobuf_state h pp =
     (case port_at h pp of
        None \<Rightarrow> Abort
      | Some port \<Rightarrow>
          (case buffer_at h (iobuf port) of
             None \<Rightarrow> Abort
           | Some b \<Rightarrow> Ok (length (buf b), buffer_cap b)))"

definition lisp_port_putc :: "heap \<Rightarrow> ptr \<Rightarrow> byte \<Rightarrow> heap res" where
  "lisp_port_putc h pp c =
     (case port_at h pp of
        None \<Rightarrow> Abort
      | Some port \<Rightarrow>
          if \<not> out port then Abort
          else if closed port then Ok h
          else
            res_bind (iobuf_state h pp) (\<lambda>(len, bcap).
            res_bind (if len \<ge> bcap then lisp_port_flush h pp else Ok h) (\<lambda>h1.
            res_bind (iobuf_state h1 pp) (\<lambda>(len1, bcap1).
              if \<not> len1 < bcap1 then Abort
              else
                res_bind (lisp_buffer_add_byte h1 (iobuf port) c) (\<lambda>h2.
                res_bind (iobuf_state h2 pp) (\<lambda>(len2, bcap2).
                  if no_buf port \<or> c = 10 \<or> len2 = bcap2 then lisp_port_flush h2 pp
                  else Ok h2))))))"

fun lisp_port_puts_loop :: "heap \<Rightarrow> ptr \<Rightarrow> ptr \<Rightarrow> bool \<Rightarrow> byte list \<Rightarrow> (heap \<times> bool) res" where
  "lisp_port_puts_loop h pp bp should_flush [] = Ok (h, should_flush)"
| "lisp_port_puts_loop h pp bp should_flush (c # s) =
     (if c = 0 then Ok (h, should_flush)
      else
        res_bind (iobuf_state h pp) (\<lambda>(len, bcap).
        res_bind (if bcap = len then res_bind (lisp_port_flush h pp) (\<lambda>h1. Ok (h1, False))
                  else Ok (h, should_flush)) (\<lambda>(h1, sf).
        res_bind (lisp_buffer_add_byte h1 bp c) (\<lambda>h2.
          lisp_port_puts_loop h2 pp bp (if c = 10 then True else sf) s))))"

definition lisp_port_puts :: "heap \<Rightarrow> ptr \<Rightarrow> byte list \<Rightarrow> heap res" where
  "lisp_port_puts h pp s =
     (case port_at h pp of
        None \<Rightarrow> Abort
      | Some port \<Rightarrow>
          res_bind (lisp_port_puts_loop h pp (iobuf port) False s) (\<lambda>(h1, should_flush).
            if no_buf port \<or> should_flush then lisp_port_flush h1 pp else Ok h1))"

definition op_flush :: "Lisp_VM \<Rightarrow> ptr list \<Rightarrow> Lisp_VM res" where
  "op_flush vm args =
     res_bind (safe_ptr (heap vm) (CAR args) O_PORT) (\<lambda>_.
       case port_at (heap vm) (CAR args) of
         None \<Rightarrow> Abort
       | Some port \<Rightarrow>
           res_bind (vm_check vm (port_vm port)) (\<lambda>_.
           res_bind (lisp_port_flush (heap vm) (CAR args)) (\<lambda>h'.
             push_result vm h' LISP_UNDEF)))"

definition op_newline :: "Lisp_VM \<Rightarrow> ptr list \<Rightarrow> Lisp_VM res" where
  "op_newline vm args =
     (let port = (if type_of (heap vm) (CAR args) = O_PORT then CAR args else vm_output vm) in
      res_bind (lisp_port_putc (heap vm) port 10) (\<lambda>h'. push_result vm h' LISP_UNDEF))"

definition op_write_string :: "Lisp_VM \<Rightarrow> ptr list \<Rightarrow> Lisp_VM res" where
  "op_write_string vm args =
     (let ob = CADR args in
      res_bind
        (if type_of (heap vm) ob = O_PORT then
           (if \<not> port_is_out (heap vm) ob then Error ''Not output port'' else Ok ob)
         else if ob \<noteq> LISP_UNDEF then Error ''Not port''
         else Ok (vm_output vm)) (\<lambda>p.
      res_bind (safe_ptr (heap vm) (CAR args) O_STRING) (\<lambda>_.
        case string_at (heap vm) (CAR args) of
          None \<Rightarrow> Abort
        | Some s \<Rightarrow>
            res_bind (lisp_port_puts (heap vm) p s) (\<lambda>h'. push_result vm h' LISP_UNDEF))))"

subsection \<open>Two concrete states\<close>

text \<open>
  \<open>literal_vm\<close>: VM 1 after reading the literals \<open>#(1 2 3)\<close>, \<open>0\<close>, \<open>9\<close> and a one-byte buffer
  literal; the reader flags each of them constant (\<open>mkarray\<close>, \<open>lisp_number_new\<close>, the
  \<open>T_BUFFER\<close> case of \<open>sexp\<close>), and \<open>lisp_array_copy\<close> gives the array four slots.
  \<open>foreign_vm\<close>: VM 1 holding a pointer to an output port that VM 2 opened with
  \<open>open-output-buffer\<close> (no stream, an empty \<open>iobuf\<close> of 256 bytes), and a string.
\<close>

definition mk :: "bool \<Rightarrow> Lisp_Body \<Rightarrow> Lisp_Object option" where
  "mk c b = Some \<lparr>marked = False, is_const = c, body = b\<rparr>"

definition literal_heap :: heap where
  "literal_heap =
     [mk True (Array \<lparr>array_vm = 1, items = [Obj 1, Obj 2, Obj 3, Null], array_count = 3\<rparr>),
      mk True (Number 1), mk True (Number 2), mk True (Number 3),
      mk True (Number 0), mk True (Number 9),
      mk True (Buffer \<lparr>buf = [0], buffer_cap = 64, buffer_vm = 1\<rparr>)]"

definition literal_vm :: Lisp_VM where
  "literal_vm = \<lparr>vm_id = 1, heap = literal_heap, stack = [], vm_output = Null\<rparr>"

definition foreign_heap :: heap where
  "foreign_heap =
     [mk False (Port \<lparr>port_vm = 2, port_name = Null, iobuf = Obj 1, stream = Null,
                      src_file = Null, input_pos = 0, byte_count = 0, max_output = 0,
                      isatty = False, no_buf = False, out = True, closed = False\<rparr>),
      mk False (Buffer \<lparr>buf = [], buffer_cap = 256, buffer_vm = 2\<rparr>),
      mk True (String [104, 105])]"

definition foreign_vm :: Lisp_VM where
  "foreign_vm = \<lparr>vm_id = 1, heap = foreign_heap, stack = [], vm_output = Null\<rparr>"


subsection \<open>What the owner check guards\<close>

lemma res_bind_simps [simp]:
  "res_bind (Ok x) f = f x"
  "res_bind (Error e) f = Error e"
  "res_bind Abort f = Abort"
  by (simp_all add: res_bind_def)

lemma foreign_array_set:
  assumes "type_of (heap vm) (CAR args) = O_ARRAY"
    and "array_at (heap vm) (CAR args) = Some a"
    and "array_vm a \<noteq> vm_id vm"
  shows "op_array_set vm args = Error ''Can not modify foreign object''"
  using assms by (simp add: op_array_set_def safe_ptr_def vm_check_def)

lemma foreign_array_pop:
  assumes "type_of (heap vm) (CAR args) = O_ARRAY"
    and "array_at (heap vm) (CAR args) = Some a"
    and "array_vm a \<noteq> vm_id vm"
  shows "op_array_pop vm args = Error ''Can not modify foreign object''"
  using assms by (simp add: op_array_pop_def safe_ptr_def vm_check_def)

lemma foreign_array_push:
  assumes "type_of (heap vm) (CAR args) = O_ARRAY"
    and "array_at (heap vm) (CAR args) = Some a"
    and "array_vm a \<noteq> vm_id vm"
  shows "op_array_push vm args = Error ''Can not modify foreign object''"
  using assms by (simp add: op_array_push_def safe_ptr_def vm_check_def)

lemma foreign_buffer_set:
  assumes "type_of (heap vm) (CAR args) = O_BUFFER"
    and "buffer_at (heap vm) (CAR args) = Some b"
    and "buffer_vm b \<noteq> vm_id vm"
  shows "op_buffer_set vm args = Error ''Can not modify foreign object''"
  using assms by (simp add: op_buffer_set_def safe_ptr_def vm_check_def)

lemma foreign_clear_buffer:
  assumes "type_of (heap vm) (CAR args) = O_BUFFER"
    and "buffer_at (heap vm) (CAR args) = Some b"
    and "buffer_vm b \<noteq> vm_id vm"
  shows "op_clear vm args = Error ''Can not modify foreign object''"
  using assms by (simp add: op_clear_def Let_def vm_check_def)

lemma foreign_clear_array:
  assumes "type_of (heap vm) (CAR args) = O_ARRAY \<or> type_of (heap vm) (CAR args) = O_DICT"
    and "array_at (heap vm) (CAR args) = Some a"
    and "array_vm a \<noteq> vm_id vm"
  shows "op_clear vm args = Error ''Can not modify foreign object''"
  using assms by (auto simp add: op_clear_def Let_def vm_check_def)

lemma foreign_flush:
  assumes "type_of (heap vm) (CAR args) = O_PORT"
    and "port_at (heap vm) (CAR args) = Some port"
    and "port_vm port \<noteq> vm_id vm"
  shows "op_flush vm args = Error ''Can not modify foreign object''"
  using assms by (simp add: op_flush_def safe_ptr_def vm_check_def)

lemma foreign_array_get:
  assumes "type_of (heap vm) (CAR args) = O_ARRAY"
    and "array_at (heap vm) (CAR args) = Some a"
    and "lisp_safe_int (heap vm) (CADR args) = Ok i"
    and "0 \<le> i" and "nat i < array_count a"
  shows "op_array_get vm args = Ok (lisp_push vm (items a ! nat i))"
  using assms by (simp add: op_array_get_def safe_ptr_def)

lemma is_integer_numeral [simp]: "is_integer 0" "is_integer (numeral k)"
  by (simp_all add: is_integer_def)

text \<open>
  Claim C6 (constant immutability), the part about mutation primitives: a mutation
  primitive applied to an immutable array or buffer should raise an error.  On the
  constant array literal \<open>#(1 2 3)\<close>, \<open>(array-set! #(1 2 3) 0 9)\<close> raises nothing: it
  returns normally and the first slot of the literal now holds 9.
\<close>

theorem array_set_on_constant_array:
  "is_const_at (heap literal_vm) (Obj 0) \<and>
   op_array_set literal_vm [Obj 0, Obj 4, Obj 5] =
     Ok (literal_vm\<lparr>heap := literal_heap[0 :=
             mk True (Array \<lparr>array_vm = 1, items = [Obj 5, Obj 2, Obj 3, Null],
                              array_count = 3\<rparr>)],
           stack := [LISP_UNDEF]\<rparr>)"
  by (simp add: op_array_set_def literal_vm_def literal_heap_def mk_def is_const_at_def
      obj_at_def safe_ptr_def type_of_def array_at_def vm_check_def lisp_safe_int_def
      number_at_def CAR_def CADR_def CDR_def INT_MAX_def INT_MIN_def push_result_def
      lisp_push_def set_body_def LISP_UNDEF_def)

text \<open>
  On a constant buffer literal \<open>clear!\<close> raises no Lisp error either: it runs into the
  assertion of \<open>lisp_buffer_clear\<close>.
\<close>

lemma clear_on_constant_buffer:
  "is_const_at (heap literal_vm) (Obj 6) \<and> op_clear literal_vm [Obj 6] = Abort"
  by (simp add: op_clear_def literal_vm_def literal_heap_def mk_def is_const_at_def
      obj_at_def type_of_def buffer_at_def vm_check_def CAR_def lisp_buffer_clear_def Let_def)

text \<open>
  Claim C7 (cross-VM write safety): every mutating primitive applied to an object of
  another VM should fail with the foreign-object error and leave the object unchanged.
  For the port of VM 2, \<open>flush\<close> fails that way, but \<open>(newline p)\<close> run by VM 1 returns
  normally and has appended a byte to the buffer of the port.
\<close>

theorem newline_on_foreign_port:
  "map_option port_vm (port_at (heap foreign_vm) (Obj 0)) = Some 2 \<and> vm_id foreign_vm = 1 \<and>
   op_flush foreign_vm [Obj 0] = Error ''Can not modify foreign object'' \<and>
   op_newline foreign_vm [Obj 0] =
     Ok (foreign_vm\<lparr>heap := foreign_heap[1 :=
             mk False (Buffer \<lparr>buf = [10], buffer_cap = 256, buffer_vm = 2\<rparr>)],
           stack := [LISP_UNDEF]\<rparr>)"
  by (simp add: op_newline_def op_flush_def foreign_vm_def foreign_heap_def mk_def
      obj_at_def safe_ptr_def type_of_def port_at_def buffer_at_def vm_check_def
      CAR_def push_result_def lisp_push_def set_body_def LISP_UNDEF_def Let_def
      lisp_port_putc_def iobuf_state_def lisp_buffer_add_byte_def lisp_buffer_add_def
      is_const_at_def lisp_port_flush_def)

end
